theory Spec2Isabelle
  imports Main "HOL-Library.Char_ord" "HOL-Library.List_Lexorder" "HOL-Library.Sublist"
begin

section \<open>Go string primitives used by the naming stages\<close>

text \<open>
  Go strings are byte sequences: \<open>len\<close> counts bytes and \<open><\<close>, \<open>>\<close> compare bytewise.
  They are modelled as \<open>string\<close> (a list of 8-bit characters) with the lexicographic
  order on lists over the byte order on characters.
\<close>

text \<open>\<open>strings.Split(s, string(sep))\<close> for a one-byte separator: never empty, \<open>[""]\<close> on \<open>""\<close>.\<close>

fun stringsSplit :: "char \<Rightarrow> string \<Rightarrow> string list" where
  "stringsSplit sep [] = [[]]"
| "stringsSplit sep (c # cs) =
     (if c = sep then [] # stringsSplit sep cs
      else (case stringsSplit sep cs of
              [] \<Rightarrow> [[c]]
            | w # ws \<Rightarrow> (c # w) # ws))"

text \<open>\<open>strings.SplitN(s, string(sep), 2)\<close>: the part before the first separator and, when there
  is a separator, the unsplit remainder.\<close>

definition stringsSplitN2 :: "char \<Rightarrow> string \<Rightarrow> string list" where
  "stringsSplitN2 sep s =
     (if sep \<in> set s
      then [takeWhile (\<lambda>c. c \<noteq> sep) s, tl (dropWhile (\<lambda>c. c \<noteq> sep) s)]
      else [s])"

text \<open>\<open>strings.Join(elems, sep)\<close>.\<close>

fun stringsJoin :: "string list \<Rightarrow> string \<Rightarrow> string" where
  "stringsJoin [] sep = []"
| "stringsJoin [x] sep = x"
| "stringsJoin (x # y # ys) sep = x @ sep @ stringsJoin (y # ys) sep"

text \<open>\<open>strings.HasPrefix(s, p)\<close> and \<open>strings.Contains(s, string(c))\<close>.\<close>

definition stringsHasPrefix :: "string \<Rightarrow> string \<Rightarrow> bool" where
  "stringsHasPrefix s p = prefix p s"

definition stringsContains :: "string \<Rightarrow> char \<Rightarrow> bool" where
  "stringsContains s c = (c \<in> set s)"

text \<open>\<open>strings.Compare(a, b)\<close>: \<open>-1\<close>, \<open>0\<close> or \<open>1\<close>.\<close>

definition stringsCompare :: "string \<Rightarrow> string \<Rightarrow> int" where
  "stringsCompare a b = (if a < b then - 1 else if b < a then 1 else 0)"

text \<open>
  \<open>strconv.Atoi\<close> of the Go standard library on a 64-bit platform: an optional sign, then
  one or more decimal digits and nothing else; a value outside the range of \<open>int\<close> is an
  error. \<open>None\<close> is the error return.
\<close>

definition isDigit :: "char \<Rightarrow> bool" where
  "isDigit c = (48 \<le> (of_char c :: nat) \<and> (of_char c :: nat) \<le> 57)"

fun digitsValue :: "nat \<Rightarrow> string \<Rightarrow> nat" where
  "digitsValue n [] = n"
| "digitsValue n (c # cs) = digitsValue (n * 10 + ((of_char c :: nat) - 48)) cs"

definition strconvAtoi :: "string \<Rightarrow> int option" where
  "strconvAtoi s =
     (let neg = (s \<noteq> [] \<and> hd s = CHR ''-'');
          ds = (if s \<noteq> [] \<and> (hd s = CHR ''-'' \<or> hd s = CHR ''+'') then tl s else s)
      in if ds = [] \<or> \<not> list_all isDigit ds then None
         else (let v = (if neg then - int (digitsValue 0 ds) else int (digitsValue 0 ds))
               in if - (2 ^ 63) \<le> v \<and> v \<le> 2 ^ 63 - 1 then Some v else None))"

section \<open>Module Orderer\<close>

text \<open>\<open>modulePathElementVersion\<close> parses strings like "v2", "v3"; \<open>-1\<close> for anything else.\<close>

definition modulePathElementVersion :: "string \<Rightarrow> int" where
  "modulePathElementVersion s =
     (if stringsHasPrefix s ''v''
      then (case strconvAtoi (tl s) of
              Some ver \<Rightarrow> (if ver \<ge> 1 then ver else - 1)
            | None \<Rightarrow> - 1)
      else - 1)"

text \<open>\<open>removeModulePathVersionElements\<close> removes all "v2", "v3" etc. parts.\<close>

definition removeModulePathVersionElements :: "string \<Rightarrow> string" where
  "removeModulePathVersionElements s =
     stringsJoin (filter (\<lambda>v. modulePathElementVersion v = - 1) (stringsSplit CHR ''/'' s)) ''/''"

text \<open>
  The four version rules of the comparator, on the segment lists of the original paths.
  \<open>None\<close> means that no rule fired and the comparison falls through.
\<close>

definition versionRules :: "string list \<Rightarrow> string list \<Rightarrow> int option" where
  "versionRules aSp bSp =
     (if length aSp \<ge> 1 \<and> length bSp \<ge> 1 then
        (if length aSp = length bSp \<and>
            modulePathElementVersion (last aSp) > modulePathElementVersion (last bSp)
         then Some (- 1)
         else if length aSp = length bSp + 1 \<and> modulePathElementVersion (last aSp) > 1
         then Some (- 1)
         else if length aSp = length bSp \<and>
            modulePathElementVersion (last aSp) < modulePathElementVersion (last bSp)
         then Some 1
         else if length aSp + 1 = length bSp \<and> modulePathElementVersion (last bSp) > 1
         then Some 1
         else None)
      else None)"

text \<open>
  \<open>makeCompareModulePaths preferPkg\<close>: negative when \<open>a\<close> sorts first. The first block
  compares the standard-library flags, the second the preferred-package prefix, then the
  length of the stripped paths, the stripped strings (descending), the version rules, and
  last the original strings.
\<close>

definition makeCompareModulePaths :: "string \<Rightarrow> string \<Rightarrow> string \<Rightarrow> int" where
  "makeCompareModulePaths preferPkg aOrig bOrig =
     (let a = removeModulePathVersionElements aOrig;
          b = removeModulePathVersionElements bOrig;
          aStd = \<not> stringsContains (hd (stringsSplitN2 CHR ''/'' a)) CHR ''.'';
          bStd = \<not> stringsContains (hd (stringsSplitN2 CHR ''/'' b)) CHR ''.'';
          aPfx = stringsHasPrefix aOrig preferPkg;
          bPfx = stringsHasPrefix bOrig preferPkg
      in if aStd \<and> \<not> bStd then - 1
         else if \<not> aStd \<and> bStd then 1
         else if preferPkg \<noteq> [] \<and> aPfx \<and> \<not> bPfx then - 1
         else if preferPkg \<noteq> [] \<and> \<not> aPfx \<and> bPfx then 1
         else if length a < length b then - 1
         else if length a > length b then 1
         else if a > b then - 1
         else if a < b then 1
         else (case versionRules (stringsSplit CHR ''/'' aOrig) (stringsSplit CHR ''/'' bOrig) of
                 Some r \<Rightarrow> r
               | None \<Rightarrow> stringsCompare aOrig bOrig))"

text \<open>The two flags the first rules of the comparator look at.\<close>

definition isStd :: "string \<Rightarrow> bool" where
  "isStd p = (\<not> stringsContains
                 (hd (stringsSplitN2 CHR ''/'' (removeModulePathVersionElements p))) CHR ''.'')"

definition prefixTie :: "string \<Rightarrow> string \<Rightarrow> string \<Rightarrow> bool" where
  "prefixTie preferPkg a b =
     (preferPkg = [] \<or> stringsHasPrefix a preferPkg = stringsHasPrefix b preferPkg)"

section \<open>Unique Module Namer\<close>

datatype error =
    CannotCreateUniqueModuleName string
  | UnableToResolveNamingConflict string
  | SliceBoundsOutOfRange
  | GenerateGenericInterfaceImplFailed string

text \<open>
  \<open>insertionSortCmpFunc\<close> of the Go standard library, which is what
  \<open>slices.SortFunc\<close> runs on a slice of at most 12 elements: each element in turn is
  swapped leftwards while it compares less than its left neighbour. \<open>sinkLeft\<close> works on
  the already processed prefix in reverse, so that its head is the left neighbour. On longer
  slices the library switches to other strategies; what is proved below about the sort
  needs only that the result is a permutation, or uses three elements.
\<close>

fun sinkLeft :: "('a \<Rightarrow> 'a \<Rightarrow> int) \<Rightarrow> 'a \<Rightarrow> 'a list \<Rightarrow> 'a list" where
  "sinkLeft cmp x [] = [x]"
| "sinkLeft cmp x (y # ys) = (if cmp x y < 0 then y # sinkLeft cmp x ys else x # y # ys)"

fun insertionSortCmpFunc :: "('a \<Rightarrow> 'a \<Rightarrow> int) \<Rightarrow> 'a list \<Rightarrow> 'a list \<Rightarrow> 'a list" where
  "insertionSortCmpFunc cmp revPrefix [] = rev revPrefix"
| "insertionSortCmpFunc cmp revPrefix (x # xs) =
     insertionSortCmpFunc cmp (sinkLeft cmp x revPrefix) xs"

definition slicesSortFunc :: "('a \<Rightarrow> 'a \<Rightarrow> int) \<Rightarrow> 'a list \<Rightarrow> 'a list" where
  "slicesSortFunc cmp xs = insertionSortCmpFunc cmp [] xs"

text \<open>
  The loop that makes one module's name unique (lines 239 to 256). \<open>toSnake\<close> stands for
  \<open>strcase.ToSnake\<close> of the third-party package, \<open>existingModuleNames\<close> is the set of
  names taken so far. The loop condition is checked first; the post statement drops the
  last path element after every iteration, also after \<open>continue\<close>.
\<close>

function moduleNameLoop ::
  "(string \<Rightarrow> string) \<Rightarrow> string set \<Rightarrow> string \<Rightarrow> string list \<Rightarrow> string list
     \<Rightarrow> error + string list" where
  "moduleNameLoop toSnake existingModuleNames modPath modPathElems nameComponents =
     (if stringsJoin nameComponents ''_'' \<in> existingModuleNames then
        (if modPathElems = [] then Inl (CannotCreateUniqueModuleName modPath)
         else (let lastElemSnakeCase = toSnake (last modPathElems)
               in if lastElemSnakeCase \<in> set nameComponents
                  then moduleNameLoop toSnake existingModuleNames modPath
                         (butlast modPathElems) nameComponents
                  else moduleNameLoop toSnake existingModuleNames modPath
                         (butlast modPathElems) (lastElemSnakeCase # nameComponents)))
      else Inr nameComponents)"
  by pat_completeness auto
termination
  by (relation "measure (\<lambda>(t, ex, p, elems, comps). length elems)") auto

text \<open>\<open>modDefaultNames[modPath]\<close>: a Go map read, the empty string for a missing key.\<close>

definition defaultName :: "(string \<times> string) list \<Rightarrow> string \<Rightarrow> string" where
  "defaultName modDefaultNames modPath =
     (case map_of modDefaultNames modPath of None \<Rightarrow> [] | Some n \<Rightarrow> n)"

definition uniqueModuleName ::
  "(string \<Rightarrow> string) \<Rightarrow> string set \<Rightarrow> (string \<times> string) list \<Rightarrow> string \<Rightarrow> error + string" where
  "uniqueModuleName toSnake existingModuleNames modDefaultNames modPath =
     (case moduleNameLoop toSnake existingModuleNames modPath
             (stringsSplit CHR ''/'' (removeModulePathVersionElements modPath))
             [defaultName modDefaultNames modPath] of
        Inl e \<Rightarrow> Inl e
      | Inr nameComponents \<Rightarrow> Inr (stringsJoin nameComponents ''_''))"

text \<open>
  The loop over the sorted module paths (lines 228 to 260): the state is the map
  \<open>modUniqueNames\<close> and the set \<open>existingModuleNames\<close>.
\<close>

fun assignModuleNames ::
  "(string \<Rightarrow> string) \<Rightarrow> (string \<times> string) list \<Rightarrow> string list
     \<Rightarrow> (string \<rightharpoonup> string) \<Rightarrow> string set \<Rightarrow> error + (string \<rightharpoonup> string)" where
  "assignModuleNames toSnake modDefaultNames [] modUniqueNames existingModuleNames =
     Inr modUniqueNames"
| "assignModuleNames toSnake modDefaultNames (modPath # rest) modUniqueNames existingModuleNames =
     (case uniqueModuleName toSnake existingModuleNames modDefaultNames modPath of
        Inl e \<Rightarrow> Inl e
      | Inr name \<Rightarrow>
          assignModuleNames toSnake modDefaultNames rest
            (modUniqueNames(modPath \<mapsto> name)) (insert name existingModuleNames))"

text \<open>
  \<open>recursivelyGetRepo\<close> from line 219 on, which computes \<open>modUniqueNames\<close>; the lines
  before it fetch and parse the repositories and fill \<open>modDefaultNames\<close>, which is the
  input here. \<open>modDefaultNames\<close> is the Go map of module path to declared name, given as the
  list of its entries in the order in which this run's \<open>range\<close> over the map yields them
  (Go leaves that order unspecified); the keys of a map are distinct. The sentinel entry for
  "C" is stored first, and the set of taken names starts empty.
\<close>

definition recursivelyGetRepo ::
  "(string \<Rightarrow> string) \<Rightarrow> string \<Rightarrow> (string \<times> string) list \<Rightarrow> error + (string \<rightharpoonup> string)" where
  "recursivelyGetRepo toSnake pkg modDefaultNames =
     (let moduleNameKeys = slicesSortFunc (makeCompareModulePaths pkg) (map fst modDefaultNames)
      in assignModuleNames toSnake modDefaultNames moduleNameKeys [''C'' \<mapsto> ''C''] {})"

text \<open>
  The naming rule in the words of the specification, for comparison with the loop: the
  candidate after \<open>k\<close> trailing segments of the version-stripped path have been consumed,
  right to left, where a segment whose normalised form is already a component is skipped.
\<close>

fun prependSegments :: "(string \<Rightarrow> string) \<Rightarrow> string list \<Rightarrow> string list \<Rightarrow> string list" where
  "prependSegments toSnake [] nameComponents = nameComponents"
| "prependSegments toSnake (seg # segs) nameComponents =
     prependSegments toSnake segs
       (if toSnake seg \<in> set nameComponents then nameComponents
        else toSnake seg # nameComponents)"

definition specCandidate :: "(string \<Rightarrow> string) \<Rightarrow> string \<Rightarrow> string \<Rightarrow> nat \<Rightarrow> string" where
  "specCandidate toSnake modPath declared k =
     stringsJoin
       (prependSegments toSnake
          (take k (rev (stringsSplit CHR ''/'' (removeModulePathVersionElements modPath))))
          [declared]) ''_''"

section \<open>Binding Namer\<close>

text \<open>
  A generated binding as far as naming looks at it: \<open>bind.UniqueName(ctx)\<close> and
  \<open>bind.File.ModulePath\<close>.
\<close>

record bindingFunc =
  bindUniqueName :: string
  bindModulePath :: string

definition mathMaxInt :: int where
  "mathMaxInt = 2 ^ 63 - 1"

text \<open>\<open>slices.Index\<close>: the first position of the element, \<open>-1\<close> when it is absent.\<close>

fun slicesIndex :: "'a list \<Rightarrow> 'a \<Rightarrow> int" where
  "slicesIndex [] v = - 1"
| "slicesIndex (x # xs) v =
     (if x = v then 0 else (let r = slicesIndex xs v in if r = - 1 then - 1 else r + 1))"

text \<open>Lines 819 to 823: the position of the module in \<open>cfg.NoPrefix\<close>, or \<open>math.MaxInt\<close>.\<close>

definition namePrio :: "string list \<Rightarrow> bindingFunc \<Rightarrow> int" where
  "namePrio noPrefix bind =
     (let prio = slicesIndex noPrefix (bindModulePath bind)
      in if prio = - 1 then mathMaxInt else prio)"

text \<open>
  The variables of the conflict loop (lines 825 to 868): the remaining candidates of every
  binding, the map from a top candidate to the index that holds it in this pass, the
  warnings, and the conflict flag of this pass.
\<close>

record namerState =
  nameCandidates :: "string list list"
  topNames :: "string \<rightharpoonup> nat"
  warn :: "string list"
  foundConflict :: bool

text \<open>The text of the warning of lines 849 to 853.\<close>

definition conflictWarning :: "string \<Rightarrow> string \<Rightarrow> string \<Rightarrow> string" where
  "conflictWarning key otherKey name =
     ''unable to resolve naming conflict between '' @ key @ '' and '' @ otherKey
       @ '', renaming '' @ name @ '' to '' @ name @ ''-1''"

text \<open>
  The body of the inner loop for index \<open>i\<close> (lines 833 to 862). Slicing an empty slice
  with \<open>[1:]\<close> panics in Go; for \<open>nameCandidates[i]\<close> the check of line 833 excludes it,
  for \<open>nameCandidates[otherI]\<close> the model returns the panic as an error.
\<close>

definition namerStep :: "int list \<Rightarrow> string list \<Rightarrow> nat \<Rightarrow> namerState \<Rightarrow> error + namerState" where
  "namerStep namePrios uniqueNames i st =
     (if nameCandidates st ! i = [] then Inl (UnableToResolveNamingConflict (uniqueNames ! i))
      else
        (let topName = hd (nameCandidates st ! i) in
         case topNames st topName of
           Some otherI \<Rightarrow>
             if namePrios ! otherI < namePrios ! i then
               Inr (st\<lparr>nameCandidates := (nameCandidates st)[i := tl (nameCandidates st ! i)],
                       topNames := (topNames st)(topName \<mapsto> otherI),
                       foundConflict := True\<rparr>)
             else if namePrios ! i < namePrios ! otherI then
               (if nameCandidates st ! otherI = [] then Inl SliceBoundsOutOfRange
                else
                  Inr (st\<lparr>nameCandidates :=
                            (nameCandidates st)[otherI := tl (nameCandidates st ! otherI)],
                          topNames := (topNames st)(topName \<mapsto> i),
                          foundConflict := True\<rparr>))
             else
               Inr (st\<lparr>warn := warn st @
                          [conflictWarning (uniqueNames ! i) (uniqueNames ! otherI) topName],
                       nameCandidates :=
                          (nameCandidates st)[i := (topName @ ''-1'') # tl (nameCandidates st ! i)],
                       topNames := (topNames st)(topName @ ''-1'' \<mapsto> i),
                       foundConflict := True\<rparr>)
         | None \<Rightarrow> Inr (st\<lparr>topNames := (topNames st)(topName \<mapsto> i)\<rparr>)))"

text \<open>The inner loop over the given indices; a fatal error ends it.\<close>

fun namerPass :: "int list \<Rightarrow> string list \<Rightarrow> nat list \<Rightarrow> namerState \<Rightarrow> error + namerState" where
  "namerPass namePrios uniqueNames [] st = Inr st"
| "namerPass namePrios uniqueNames (i # rest) st =
     (case namerStep namePrios uniqueNames i st of
        Inl e \<Rightarrow> Inl e
      | Inr st' \<Rightarrow> namerPass namePrios uniqueNames rest st')"

text \<open>The state in which every pass starts: no top name seen, no conflict found.\<close>

definition passStart :: "string list list \<Rightarrow> string list \<Rightarrow> namerState" where
  "passStart cands w =
     \<lparr>nameCandidates = cands, topNames = Map.empty, warn = w, foundConflict = False\<rparr>"

text \<open>
  The outer loop (lines 829 to 871), with fuel: \<open>None\<close> when the passes allowed by the fuel do
  not suffice. On success the result is \<open>bindingNames\<close>, the first remaining candidate of
  every binding, and the warnings.
\<close>

fun namerLoop ::
  "nat \<Rightarrow> int list \<Rightarrow> string list \<Rightarrow> string list list \<Rightarrow> string list
     \<Rightarrow> (error + string list \<times> string list) option" where
  "namerLoop 0 namePrios uniqueNames cands w = None"
| "namerLoop (Suc fuel) namePrios uniqueNames cands w =
     (case namerPass namePrios uniqueNames [0..<length uniqueNames] (passStart cands w) of
        Inl e \<Rightarrow> Some (Inl e)
      | Inr st \<Rightarrow>
          if foundConflict st
          then namerLoop fuel namePrios uniqueNames (nameCandidates st) (warn st)
          else Some (Inr (map hd (nameCandidates st), warn st)))"

text \<open>
  Lines 815 to 872 on the sorted bindings. \<open>ryeified bind noPrefix\<close> stands for
  \<open>bind.RyeifiedNameCandidates(ctx, noPrefix, cfg.CutNew, rename)\<close>, which is not part of
  these sources; every call is taken to return a slice of its own.
\<close>

definition initialCandidates ::
  "string list \<Rightarrow> (bindingFunc \<Rightarrow> bool \<Rightarrow> string list) \<Rightarrow> bindingFunc list \<Rightarrow> string list list" where
  "initialCandidates noPrefix ryeified sortedBindings =
     map (\<lambda>bind. ryeified bind (namePrio noPrefix bind \<noteq> mathMaxInt)) sortedBindings"

definition bindingNames ::
  "nat \<Rightarrow> string list \<Rightarrow> (bindingFunc \<Rightarrow> bool \<Rightarrow> string list) \<Rightarrow> bindingFunc list \<Rightarrow> string list
     \<Rightarrow> (error + string list \<times> string list) option" where
  "bindingNames fuel noPrefix ryeified sortedBindings w =
     namerLoop fuel (map (namePrio noPrefix) sortedBindings)
       (map bindUniqueName sortedBindings)
       (initialCandidates noPrefix ryeified sortedBindings) w"

text \<open>
  The collisions met during a run, in order, as pairs of the index being processed and
  the index that holds the same top name in \<open>topNames\<close>: exactly the cases in which line
  837 finds \<open>topName\<close> in the map. These functions only observe the loop above.
\<close>

fun passCollisions ::
  "int list \<Rightarrow> string list \<Rightarrow> nat list \<Rightarrow> namerState \<Rightarrow> (nat \<times> nat) list" where
  "passCollisions namePrios uniqueNames [] st = []"
| "passCollisions namePrios uniqueNames (i # rest) st =
     (case namerStep namePrios uniqueNames i st of
        Inl e \<Rightarrow> []
      | Inr st' \<Rightarrow>
          (case topNames st (hd (nameCandidates st ! i)) of
             Some otherI \<Rightarrow> [(i, otherI)]
           | None \<Rightarrow> [])
          @ passCollisions namePrios uniqueNames rest st')"

fun loopCollisions ::
  "nat \<Rightarrow> int list \<Rightarrow> string list \<Rightarrow> string list list \<Rightarrow> string list \<Rightarrow> (nat \<times> nat) list" where
  "loopCollisions 0 namePrios uniqueNames cands w = []"
| "loopCollisions (Suc fuel) namePrios uniqueNames cands w =
     passCollisions namePrios uniqueNames [0..<length uniqueNames] (passStart cands w)
     @ (case namerPass namePrios uniqueNames [0..<length uniqueNames] (passStart cands w) of
          Inl e \<Rightarrow> []
        | Inr st \<Rightarrow>
            if foundConflict st
            then loopCollisions fuel namePrios uniqueNames (nameCandidates st) (warn st)
            else [])"

definition bindingCollisions ::
  "nat \<Rightarrow> string list \<Rightarrow> (bindingFunc \<Rightarrow> bool \<Rightarrow> string list) \<Rightarrow> bindingFunc list \<Rightarrow> string list
     \<Rightarrow> (nat \<times> nat) list" where
  "bindingCollisions fuel noPrefix ryeified sortedBindings w =
     loopCollisions fuel (map (namePrio noPrefix) sortedBindings)
       (map bindUniqueName sortedBindings)
       (initialCandidates noPrefix ryeified sortedBindings) w"

text \<open>
  What the entries of \<open>topNames\<close> say while the scan is at index \<open>i\<close>: an entry belongs to
  an earlier index whose current top candidate is the key.
\<close>

definition registered :: "nat \<Rightarrow> namerState \<Rightarrow> bool" where
  "registered i st =
     (\<forall>n otherI. topNames st n = Some otherI \<longrightarrow>
        otherI < i \<and> nameCandidates st ! otherI \<noteq> [] \<and> hd (nameCandidates st ! otherI) = n)"

text \<open>
  A collision \<open>(i, otherI)\<close> leaves binding \<open>k\<close> alone when \<open>k\<close> is not part of it or has the
  strictly lower priority number of the two.
\<close>

definition unharmed :: "int list \<Rightarrow> nat \<Rightarrow> nat \<times> nat \<Rightarrow> bool" where
  "unharmed namePrios k c =
     ((fst c = k \<longrightarrow> namePrios ! k < namePrios ! snd c)
      \<and> (snd c = k \<longrightarrow> namePrios ! k < namePrios ! fst c))"

text \<open>
  The scenario of the specification: "fmt" and "example.com/app" both offer "print" first;
  "fmt" is listed first in \<open>cfg.NoPrefix\<close>. The bindings are in the order of their
  unique names.
\<close>

definition printBindings :: "bindingFunc list" where
  "printBindings =
     [\<lparr>bindUniqueName = ''example.com/app.Print'', bindModulePath = ''example.com/app''\<rparr>,
      \<lparr>bindUniqueName = ''fmt.Print'', bindModulePath = ''fmt''\<rparr>]"

definition printCandidates :: "bindingFunc \<Rightarrow> bool \<Rightarrow> string list" where
  "printCandidates bind noPrefix =
     (if bindModulePath bind = ''fmt'' then [''print'', ''fmt-print'']
      else [''print'', ''app-print''])"

section \<open>Generic-Implementation Closure\<close>

text \<open>
  The variables of the closure loop of \<open>genBindings\<close> (lines 464 to 484): the keys of the
  map \<open>deps.GenericInterfaceImpls\<close>, the map \<open>genericIfaceImpls\<close> and the flag of the
  current scan. \<open>genericIfaceImpls\<close> is kept as the list of its entries in the order in
  which they were stored; an entry is stored only under a key that the map does not have
  yet (line 470), so every synthesis adds one entry.
\<close>

record closureState =
  depsKeys :: "string list"
  genericIfaceImpls :: "(string \<times> string) list"
  addedImpl :: bool

text \<open>
  One scan over the keys that \<open>sortedMapAll\<close> collected when the scan began. \<open>genImpl name\<close>
  stands for \<open>binder.GenerateGenericInterfaceImpl\<close> on the interface stored under
  \<open>name\<close>, followed by the placeholder replacement of lines 478 and 479: it returns the
  cause of a failure, or the text to store and the keys the call adds to
  \<open>deps.GenericInterfaceImpls\<close>. A failure is fatal.
\<close>

fun closureScan ::
  "(string \<Rightarrow> string + string \<times> string list) \<Rightarrow> string list \<Rightarrow> closureState
     \<Rightarrow> error + closureState" where
  "closureScan genImpl [] st = Inr st"
| "closureScan genImpl (name # rest) st =
     (if name \<in> fst ` set (genericIfaceImpls st) then closureScan genImpl rest st
      else (case genImpl name of
              Inl cause \<Rightarrow> Inl (GenerateGenericInterfaceImplFailed cause)
            | Inr (ifaceImpl, required) \<Rightarrow>
                closureScan genImpl rest
                  (st\<lparr>depsKeys := fold List.insert required (depsKeys st),
                      genericIfaceImpls := genericIfaceImpls st @ [(name, ifaceImpl)],
                      addedImpl := True\<rparr>)))"

text \<open>
  The loop: scan the sorted keys, and stop after the first scan that added nothing.
  \<open>None\<close> is a loop that never ends.
\<close>

partial_function (option) closureLoop ::
  "(string \<Rightarrow> string + string \<times> string list) \<Rightarrow> string list \<Rightarrow> (string \<times> string) list
     \<Rightarrow> (error + string list \<times> (string \<times> string) list) option" where
  "closureLoop genImpl keys impls =
     (case closureScan genImpl (sort (remdups keys))
             \<lparr>depsKeys = keys, genericIfaceImpls = impls, addedImpl = False\<rparr> of
        Inl e \<Rightarrow> Some (Inl e)
      | Inr st \<Rightarrow>
          if addedImpl st then closureLoop genImpl (depsKeys st) (genericIfaceImpls st)
          else Some (Inr (depsKeys st, genericIfaceImpls st)))"

declare closureLoop.simps [code]

text \<open>The keys reachable from the initial requests along "synthesising k requires k'".\<close>

inductive_set requiredKeys ::
  "(string \<Rightarrow> string + string \<times> string list) \<Rightarrow> string list \<Rightarrow> string set"
  for genImpl :: "string \<Rightarrow> string + string \<times> string list" and keys :: "string list" where
  initial: "k \<in> set keys \<Longrightarrow> k \<in> requiredKeys genImpl keys"
| requires: "k \<in> requiredKeys genImpl keys \<Longrightarrow> genImpl k = Inr (ifaceImpl, required) \<Longrightarrow>
             k' \<in> set required \<Longrightarrow> k' \<in> requiredKeys genImpl keys"

text \<open>What the closure loop maintains, relative to the initial requests \<open>keys0\<close>.\<close>

definition closureInv ::
  "(string \<Rightarrow> string + string \<times> string list) \<Rightarrow> string list \<Rightarrow> string list
     \<Rightarrow> (string \<times> string) list \<Rightarrow> bool" where
  "closureInv genImpl keys0 keys impls =
     (set keys0 \<subseteq> set keys \<and> set keys \<subseteq> requiredKeys genImpl keys0
      \<and> fst ` set impls \<subseteq> requiredKeys genImpl keys0
      \<and> distinct (map fst impls)
      \<and> (\<forall>(k, txt)\<in>set impls.
            \<exists>required. genImpl k = Inr (txt, required) \<and> set required \<subseteq> set keys))"

text \<open>
  An example synthesiser: "Reader" requires "Closer", "Closer" requires "Reader" back,
  nothing else is known.
\<close>

definition readerCloser :: "string \<Rightarrow> string + string \<times> string list" where
  "readerCloser name =
     (if name = ''Reader'' then Inr (''impl Reader'', [''Closer''])
      else if name = ''Closer'' then Inr (''impl Closer'', [''Reader''])
      else Inl ''unknown interface'')"

section \<open>Binding Pipeline\<close>

text \<open>
  The symbol tables of \<open>ctx.IR\<close> as far as \<open>genBindings\<close> reads them. The types belong
  to the package \<open>ir\<close>, which is not part of these sources; a record holds what the
  function looks at: the names used in diagnostics, the module path of the declaring file
  (\<open>None\<close> when \<open>Name.File\<close> is \<open>nil\<close>), and the value of the \<open>ir\<close> predicates
  \<open>IdentIsInternal\<close> and \<open>ModulePathIsInternal\<close> on the symbol. For a function,
  \<open>funcInternal\<close> is the whole condition of line 388.
\<close>

record func =
  funcString :: string
  funcModulePath :: string
  funcInternal :: bool

record iface =
  ifaceModulePath :: "string option"
  ifaceInternal :: bool
  ifaceFuncs :: "func list"

record structField =
  fieldName :: string

record struc =
  strucName :: string
  strucModulePath :: "string option"
  strucInternal :: bool
  strucFields :: "structField list"

record valueSym =
  valueName :: string
  valueModulePath :: "string option"
  valueInternal :: bool

text \<open>Each table is the list of the values of the Go map in the order of \<open>sortedMapAll\<close>.\<close>

record irTables =
  irInterfaces :: "iface list"
  irFuncs :: "func list"
  irStructs :: "struc list"
  irValues :: "valueSym list"

text \<open>
  The calls into the package \<open>binder\<close>, one per symbol: \<open>GenerateBinding\<close> for interface
  methods and functions, \<open>GenerateGetterOrSetter\<close> (the flag is \<open>setter\<close>),
  \<open>GenerateValue\<close> and \<open>GenerateNewStruct\<close>.
\<close>

datatype request =
    GenerateBinding func
  | GenerateGetterOrSetter structField struc bool
  | GenerateValue valueSym
  | GenerateNewStruct struc

text \<open>The name that the diagnostic of a failed call starts with (lines 380, 396, 413 to 419,
  436 and 452).\<close>

fun diagnosticName :: "request \<Rightarrow> string" where
  "diagnosticName (GenerateBinding fn) = funcString fn"
| "diagnosticName (GenerateGetterOrSetter f struc setter) =
     strucName struc @ ''//'' @ fieldName f @ (if setter then ''!'' else ''?'')"
| "diagnosticName (GenerateValue v) = valueName v"
| "diagnosticName (GenerateNewStruct struc) = strucName struc"

text \<open>The two \<open>continue\<close> checks at the head of the loops over interfaces, structs and values.\<close>

definition inTarget :: "string list \<Rightarrow> string option \<Rightarrow> bool \<Rightarrow> bool" where
  "inTarget targetPkgs modulePath internal =
     (case modulePath of
        None \<Rightarrow> False
      | Some m \<Rightarrow> \<not> internal \<and> m \<in> set targetPkgs)"

text \<open>The calls of each of the five loops, in order (lines 370, 387, 402, 427 and 443).\<close>

definition interfaceRequests :: "string list \<Rightarrow> irTables \<Rightarrow> request list" where
  "interfaceRequests targetPkgs ir =
     concat (map (\<lambda>iface.
                if inTarget targetPkgs (ifaceModulePath iface) (ifaceInternal iface)
                then map GenerateBinding (ifaceFuncs iface) else [])
             (irInterfaces ir))"

definition funcRequests :: "string list \<Rightarrow> irTables \<Rightarrow> request list" where
  "funcRequests targetPkgs ir =
     map GenerateBinding
       (filter (\<lambda>fn. \<not> funcInternal fn \<and> funcModulePath fn \<in> set targetPkgs) (irFuncs ir))"

definition accessorRequests :: "string list \<Rightarrow> irTables \<Rightarrow> request list" where
  "accessorRequests targetPkgs ir =
     concat (map (\<lambda>struc.
                if inTarget targetPkgs (strucModulePath struc) (strucInternal struc)
                then concat (map (\<lambda>f. [GenerateGetterOrSetter f struc False,
                                         GenerateGetterOrSetter f struc True])
                               (strucFields struc))
                else [])
             (irStructs ir))"

definition valueRequests :: "string list \<Rightarrow> irTables \<Rightarrow> request list" where
  "valueRequests targetPkgs ir =
     map GenerateValue
       (filter (\<lambda>v. inTarget targetPkgs (valueModulePath v) (valueInternal v)) (irValues ir))"

definition newStructRequests :: "string list \<Rightarrow> irTables \<Rightarrow> request list" where
  "newStructRequests targetPkgs ir =
     map GenerateNewStruct
       (filter (\<lambda>struc. inTarget targetPkgs (strucModulePath struc) (strucInternal struc))
          (irStructs ir))"

definition plainRequests :: "string list \<Rightarrow> irTables \<Rightarrow> request list" where
  "plainRequests targetPkgs ir =
     interfaceRequests targetPkgs ir @ funcRequests targetPkgs ir
     @ accessorRequests targetPkgs ir @ valueRequests targetPkgs ir"

text \<open>
  The results that \<open>genBindings\<close> accumulates: the bindings, the errors appended to
  \<open>resErr\<close>, and the keys of \<open>deps.GenericInterfaceImpls\<close> (the imports in \<open>deps\<close> are
  not read by this function).
\<close>

record genState =
  bindings :: "bindingFunc list"
  resErr :: "string list"
  deps :: "string list"

text \<open>
  The loop body of the first four loops. \<open>synth d req\<close> stands for the call into \<open>binder\<close>
  with the dependencies \<open>d\<close>: it returns the cause of the failure or the binding, and the
  dependencies as the call leaves them.
\<close>

definition generate ::
  "(string list \<Rightarrow> request \<Rightarrow> (string + bindingFunc) \<times> string list) \<Rightarrow> request \<Rightarrow> genState
     \<Rightarrow> genState" where
  "generate synth req st =
     (case synth (deps st) req of
        (Inl cause, d) \<Rightarrow>
          st\<lparr>resErr := resErr st @ [diagnosticName req @ '': '' @ cause], deps := d\<rparr>
      | (Inr bind, d) \<Rightarrow> st\<lparr>bindings := bindings st @ [bind], deps := d\<rparr>)"

text \<open>The loop body of the last loop: the binding is dropped when one with the same unique
  name exists already (lines 456 to 461).\<close>

definition generateNewStruct ::
  "(string list \<Rightarrow> request \<Rightarrow> (string + bindingFunc) \<times> string list) \<Rightarrow> request \<Rightarrow> genState
     \<Rightarrow> genState" where
  "generateNewStruct synth req st =
     (case synth (deps st) req of
        (Inl cause, d) \<Rightarrow>
          st\<lparr>resErr := resErr st @ [diagnosticName req @ '': '' @ cause], deps := d\<rparr>
      | (Inr bind, d) \<Rightarrow>
          if \<exists>b\<in>set (bindings st). bindUniqueName b = bindUniqueName bind
          then st\<lparr>deps := d\<rparr>
          else st\<lparr>bindings := bindings st @ [bind], deps := d\<rparr>)"

text \<open>Lines 368 to 462: the five loops, from empty dependencies.\<close>

definition symbolBindings ::
  "(string list \<Rightarrow> request \<Rightarrow> (string + bindingFunc) \<times> string list) \<Rightarrow> string list \<Rightarrow> irTables
     \<Rightarrow> genState" where
  "symbolBindings synth targetPkgs ir =
     fold (generateNewStruct synth) (newStructRequests targetPkgs ir)
       (fold (generate synth) (valueRequests targetPkgs ir)
         (fold (generate synth) (accessorRequests targetPkgs ir)
           (fold (generate synth) (funcRequests targetPkgs ir)
             (fold (generate synth) (interfaceRequests targetPkgs ir)
               \<lparr>bindings = [], resErr = [], deps = []\<rparr>))))"

text \<open>
  \<open>genBindings\<close>: the five loops, then the closure loop. \<open>Inl\<close> is the fatal error of the
  closure; otherwise the result is the bindings, the implementation texts, the dependencies
  and the aggregated non-fatal errors.
\<close>

definition genBindings ::
  "(string list \<Rightarrow> request \<Rightarrow> (string + bindingFunc) \<times> string list)
     \<Rightarrow> (string \<Rightarrow> string + string \<times> string list) \<Rightarrow> string list \<Rightarrow> irTables
     \<Rightarrow> (error + bindingFunc list \<times> string list \<times> string list \<times> string list) option" where
  "genBindings synth genImpl targetPkgs ir =
     (let st = symbolBindings synth targetPkgs ir
      in case closureLoop genImpl (deps st) [] of
           None \<Rightarrow> None
         | Some (Inl e) \<Rightarrow> Some (Inl e)
         | Some (Inr (keys, impls)) \<Rightarrow>
             Some (Inr (bindings st, map snd impls, keys, resErr st)))"

text \<open>
  An example: a package with the functions \<open>Open\<close> and \<open>Close\<close> and the struct \<open>File\<close>
  with one field; the synthesis of \<open>Close\<close> fails.
\<close>

definition openFn :: func where
  "openFn = \<lparr>funcString = ''Open'', funcModulePath = ''example.com/app'', funcInternal = False\<rparr>"

definition closeFn :: func where
  "closeFn = \<lparr>funcString = ''Close'', funcModulePath = ''example.com/app'', funcInternal = False\<rparr>"

definition fileStruc :: struc where
  "fileStruc = \<lparr>strucName = ''File'', strucModulePath = Some ''example.com/app'',
                 strucInternal = False, strucFields = [\<lparr>fieldName = ''Name''\<rparr>]\<rparr>"

definition appTables :: irTables where
  "appTables = \<lparr>irInterfaces = [], irFuncs = [closeFn, openFn], irStructs = [fileStruc],
                 irValues = []\<rparr>"

definition appSynth :: "string list \<Rightarrow> request \<Rightarrow> (string + bindingFunc) \<times> string list" where
  "appSynth d req =
     (if req = GenerateBinding closeFn then (Inl ''unsupported type'', d)
      else (Inr \<lparr>bindUniqueName = diagnosticName req, bindModulePath = ''example.com/app''\<rparr>, d))"

section \<open>Properties of the Module Orderer\<close>

lemma compare_after_ties:
  assumes "isStd a = isStd b" and "prefixTie p a b"
  shows "makeCompareModulePaths p a b =
     (let a' = removeModulePathVersionElements a; b' = removeModulePathVersionElements b
      in if length a' < length b' then - 1
         else if length a' > length b' then 1
         else if a' > b' then - 1
         else if a' < b' then 1
         else (case versionRules (stringsSplit CHR ''/'' a) (stringsSplit CHR ''/'' b) of
                 Some r \<Rightarrow> r
               | None \<Rightarrow> stringsCompare a b))"
  using assms
  unfolding makeCompareModulePaths_def isStd_def prefixTie_def Let_def
  by auto

text \<open>
  C9: when two module paths tie on the standard-library flag and on the preferred-package
  prefix, and their version-stripped paths have the same length but are different
  strings, the comparator puts the path with the lexicographically larger stripped string
  first (result \<open>-1\<close>), and the other way round for the swapped arguments.
\<close>

theorem larger_stripped_string_sorts_first:
  assumes "isStd a = isStd b" and "prefixTie p a b"
    and "length (removeModulePathVersionElements a) = length (removeModulePathVersionElements b)"
    and "removeModulePathVersionElements a \<noteq> removeModulePathVersionElements b"
  shows "makeCompareModulePaths p a b =
           (if removeModulePathVersionElements a > removeModulePathVersionElements b then - 1 else 1)
       \<and> makeCompareModulePaths p b a = - makeCompareModulePaths p a b"
proof -
  have tie': "prefixTie p b a" using assms(2) by (auto simp: prefixTie_def)
  have std': "isStd b = isStd a" using assms(1) by simp
  show ?thesis
    using assms(3,4)
    by (auto simp: compare_after_ties[OF assms(1,2)] compare_after_ties[OF std' tie'] Let_def)
qed

theorem larger_stripped_string_sorts_first_witness:
  "makeCompareModulePaths ''x.y'' ''x.y/b'' ''x.y/a'' = - 1 \<and>
   makeCompareModulePaths ''x.y'' ''x.y/a'' ''x.y/b'' = 1"
proof -
  have 1: "isStd ''x.y/b'' = isStd ''x.y/a''" by code_simp
  have 2: "prefixTie ''x.y'' ''x.y/b'' ''x.y/a''" by code_simp
  have 3: "length (removeModulePathVersionElements ''x.y/b'')
             = length (removeModulePathVersionElements ''x.y/a'')" by code_simp
  have 4: "removeModulePathVersionElements ''x.y/b'' \<noteq> removeModulePathVersionElements ''x.y/a''"
    by code_simp
  have 5: "removeModulePathVersionElements ''x.y/b'' > removeModulePathVersionElements ''x.y/a''"
    by code_simp
  show ?thesis using larger_stripped_string_sorts_first[OF 1 2 3 4] 5 by simp
qed

lemma versionRules_longer:
  assumes "length aSp = length bSp + 1" and "modulePathElementVersion (last aSp) > 1" and "bSp \<noteq> []"
  shows "versionRules aSp bSp = Some (- 1)" and "versionRules bSp aSp = Some 1"
  using assms by (cases bSp; auto simp: versionRules_def)+

lemma stringsSplit_nonempty: "stringsSplit sep s \<noteq> []"
  by (induction s) (auto split: list.splits)

text \<open>
  C10: when the earlier rules tie (same standard-library flag, same prefix flag, equal
  stripped paths) and one path has exactly one more segment than the other, its last
  segment being a version marker greater than 1, the comparator puts the longer, versioned
  path first, in both argument orders. For "example.com/lib/v2" against "example.com/lib"
  this is so for every preferred package.
\<close>

theorem versioned_path_sorts_first:
  "(isStd a = isStd b \<and> prefixTie p a b
      \<and> removeModulePathVersionElements a = removeModulePathVersionElements b
      \<and> length (stringsSplit CHR ''/'' a) = length (stringsSplit CHR ''/'' b) + 1
      \<and> modulePathElementVersion (last (stringsSplit CHR ''/'' a)) > 1
    \<longrightarrow> makeCompareModulePaths p a b = - 1 \<and> makeCompareModulePaths p b a = 1)
   \<and> makeCompareModulePaths q ''example.com/lib/v2'' ''example.com/lib'' = - 1
   \<and> makeCompareModulePaths q ''example.com/lib'' ''example.com/lib/v2'' = 1"
proof (intro conjI impI)
  assume h: "isStd a = isStd b \<and> prefixTie p a b
      \<and> removeModulePathVersionElements a = removeModulePathVersionElements b
      \<and> length (stringsSplit CHR ''/'' a) = length (stringsSplit CHR ''/'' b) + 1
      \<and> modulePathElementVersion (last (stringsSplit CHR ''/'' a)) > 1"
  then have std: "isStd a = isStd b" and tie: "prefixTie p a b" by simp_all
  have tie': "prefixTie p b a" using tie by (auto simp: prefixTie_def)
  have std': "isStd b = isStd a" using std by simp
  have vr: "versionRules (stringsSplit CHR ''/'' a) (stringsSplit CHR ''/'' b) = Some (- 1)"
           "versionRules (stringsSplit CHR ''/'' b) (stringsSplit CHR ''/'' a) = Some 1"
    using h versionRules_longer[OF _ _ stringsSplit_nonempty] by simp_all
  show "makeCompareModulePaths p a b = - 1"
    using h vr by (simp add: compare_after_ties[OF std tie] Let_def)
  show "makeCompareModulePaths p b a = 1"
    using h vr by (simp add: compare_after_ties[OF std' tie'] Let_def)
next
  let ?a = "''example.com/lib/v2''" and ?b = "''example.com/lib''"
  have sa: "removeModulePathVersionElements ?a = ''example.com/lib''" by code_simp
  have sb: "removeModulePathVersionElements ?b = ''example.com/lib''" by code_simp
  have std: "isStd ?a = isStd ?b" by (simp add: isStd_def sa sb)
  have vr: "versionRules (stringsSplit CHR ''/'' ?a) (stringsSplit CHR ''/'' ?b) = Some (- 1)"
           "versionRules (stringsSplit CHR ''/'' ?b) (stringsSplit CHR ''/'' ?a) = Some 1"
    by code_simp+
  have pfx: "stringsHasPrefix ?b q \<Longrightarrow> stringsHasPrefix ?a q"
  proof -
    have "prefix ?b ?a" by simp
    then show "stringsHasPrefix ?b q \<Longrightarrow> stringsHasPrefix ?a q"
      unfolding stringsHasPrefix_def by (rule prefix_order.trans[rotated])
  qed
  show "makeCompareModulePaths q ?a ?b = - 1"
    using std vr pfx unfolding makeCompareModulePaths_def Let_def sa sb isStd_def
    by auto
  show "makeCompareModulePaths q ?b ?a = 1"
    using std vr pfx unfolding makeCompareModulePaths_def Let_def sa sb isStd_def
    by auto
qed

theorem versioned_path_sorts_first_witness:
  "makeCompareModulePaths ''example.com'' ''example.com/lib/v3'' ''example.com/lib'' = - 1
   \<and> makeCompareModulePaths ''example.com'' ''example.com/lib'' ''example.com/lib/v3'' = 1"
proof -
  let ?a = "''example.com/lib/v3''" and ?b = "''example.com/lib''" and ?p = "''example.com''"
  have h: "isStd ?a = isStd ?b \<and> prefixTie ?p ?a ?b
      \<and> removeModulePathVersionElements ?a = removeModulePathVersionElements ?b
      \<and> length (stringsSplit CHR ''/'' ?a) = length (stringsSplit CHR ''/'' ?b) + 1
      \<and> modulePathElementVersion (last (stringsSplit CHR ''/'' ?a)) > 1"
    by code_simp
  show ?thesis using versioned_path_sorts_first[of ?a ?b ?p "[]"] h by blast
qed

section \<open>Properties of the Unique Module Namer\<close>

declare moduleNameLoop.simps [simp del]

lemma rev_butlast_last: "xs \<noteq> [] \<Longrightarrow> rev xs = last xs # rev (butlast xs)"
  by (induction xs rule: rev_induct) simp_all

lemma moduleNameLoop_first_free:
  "k \<le> length elems \<Longrightarrow>
   (\<forall>j<k. stringsJoin (prependSegments t (take j (rev elems)) comps) ''_'' \<in> ex) \<Longrightarrow>
   stringsJoin (prependSegments t (take k (rev elems)) comps) ''_'' \<notin> ex \<Longrightarrow>
   moduleNameLoop t ex p elems comps = Inr (prependSegments t (take k (rev elems)) comps)"
proof (induction k arbitrary: elems comps)
  case 0
  then show ?case by (subst moduleNameLoop.simps) simp
next
  case (Suc k)
  from Suc.prems(1) have ne: "elems \<noteq> []" by auto
  have rv: "rev elems = last elems # rev (butlast elems)"
    using ne by (rule rev_butlast_last)
  let ?c = "if t (last elems) \<in> set comps then comps else t (last elems) # comps"
  have taken: "stringsJoin comps ''_'' \<in> ex"
    using Suc.prems(2)[rule_format, of 0] by simp
  have len: "k \<le> length (butlast elems)" using Suc.prems(1) by simp
  have pre: "\<forall>j<k. stringsJoin (prependSegments t (take j (rev (butlast elems))) ?c) ''_'' \<in> ex"
  proof (intro allI impI)
    fix j assume "j < k"
    then have "Suc j < Suc k" by simp
    from Suc.prems(2)[rule_format, OF this]
    show "stringsJoin (prependSegments t (take j (rev (butlast elems))) ?c) ''_'' \<in> ex"
      by (simp add: rv)
  qed
  have fin: "stringsJoin (prependSegments t (take k (rev (butlast elems))) ?c) ''_'' \<notin> ex"
    using Suc.prems(3) by (simp add: rv)
  have "moduleNameLoop t ex p (butlast elems) ?c
          = Inr (prependSegments t (take k (rev (butlast elems))) ?c)"
    by (rule Suc.IH[OF len pre fin])
  moreover have "moduleNameLoop t ex p elems comps = moduleNameLoop t ex p (butlast elems) ?c"
    using ne taken by (subst moduleNameLoop.simps) (simp add: Let_def)
  ultimately show ?case by (simp add: rv)
qed

lemma moduleNameLoop_exhausted:
  "(\<forall>j\<le>length elems. stringsJoin (prependSegments t (take j (rev elems)) comps) ''_'' \<in> ex) \<Longrightarrow>
   moduleNameLoop t ex p elems comps = Inl (CannotCreateUniqueModuleName p)"
proof (induction "length elems" arbitrary: elems comps)
  case 0
  then show ?case by (subst moduleNameLoop.simps) simp
next
  case (Suc n)
  from Suc.hyps(2) have ne: "elems \<noteq> []" by auto
  have rv: "rev elems = last elems # rev (butlast elems)"
    using ne by (rule rev_butlast_last)
  let ?c = "if t (last elems) \<in> set comps then comps else t (last elems) # comps"
  have taken: "stringsJoin comps ''_'' \<in> ex"
    using Suc.prems[rule_format, of 0] by simp
  have len: "n = length (butlast elems)" using Suc.hyps(2) by simp
  have pre: "\<forall>j\<le>length (butlast elems). stringsJoin (prependSegments t (take j (rev (butlast elems))) ?c) ''_'' \<in> ex"
  proof (intro allI impI)
    fix j assume "j \<le> length (butlast elems)"
    then have "Suc j \<le> length elems" using ne by (cases elems rule: rev_cases) simp_all
    from Suc.prems[rule_format, OF this]
    show "stringsJoin (prependSegments t (take j (rev (butlast elems))) ?c) ''_'' \<in> ex"
      by (simp add: rv)
  qed
  have "moduleNameLoop t ex p (butlast elems) ?c = Inl (CannotCreateUniqueModuleName p)"
    by (rule Suc.hyps(1)[OF len pre])
  moreover have "moduleNameLoop t ex p elems comps = moduleNameLoop t ex p (butlast elems) ?c"
    using ne taken by (subst moduleNameLoop.simps) (simp add: Let_def)
  ultimately show ?case by simp
qed

lemma prependSegments_distinct:
  "distinct comps \<Longrightarrow> distinct (prependSegments t segs comps)"
  by (induction segs arbitrary: comps) auto


lemma moduleNameLoop_fresh:
  "moduleNameLoop t ex p elems comps = Inr cs \<Longrightarrow> stringsJoin cs ''_'' \<notin> ex"
proof (induction t ex p elems comps rule: moduleNameLoop.induct)
  case (1 t ex p elems comps)
  show ?case
  proof (cases "stringsJoin comps ''_'' \<in> ex")
    case False
    then show ?thesis using "1.prems" by (subst (asm) moduleNameLoop.simps) auto
  next
    case True
    show ?thesis
    proof (cases "elems = []")
      case True
      then show ?thesis using "1.prems" \<open>stringsJoin comps ''_'' \<in> ex\<close>
        by (subst (asm) moduleNameLoop.simps) auto
    next
      case False
      show ?thesis
      proof (cases "t (last elems) \<in> set comps")
        case True
        then have "moduleNameLoop t ex p (butlast elems) comps = Inr cs"
          using "1.prems" \<open>stringsJoin comps ''_'' \<in> ex\<close> \<open>elems \<noteq> []\<close>
          by (subst (asm) moduleNameLoop.simps) (simp add: Let_def)
        then show ?thesis
          using "1.IH"(1)[OF \<open>stringsJoin comps ''_'' \<in> ex\<close> \<open>elems \<noteq> []\<close> refl True] by simp
      next
        case False
        then have "moduleNameLoop t ex p (butlast elems) (t (last elems) # comps) = Inr cs"
          using "1.prems" \<open>stringsJoin comps ''_'' \<in> ex\<close> \<open>elems \<noteq> []\<close>
          by (subst (asm) moduleNameLoop.simps) (simp add: Let_def)
        then show ?thesis
          using "1.IH"(2)[OF \<open>stringsJoin comps ''_'' \<in> ex\<close> \<open>elems \<noteq> []\<close> refl False] by simp
      qed
    qed
  qed
qed


lemma uniqueModuleName_fresh:
  "uniqueModuleName t ex d p = Inr n \<Longrightarrow> n \<notin> ex"
  by (auto simp: uniqueModuleName_def split: sum.splits dest: moduleNameLoop_fresh)

lemma moduleNameLoop_error:
  "moduleNameLoop t ex p elems comps = Inl e \<Longrightarrow> e = CannotCreateUniqueModuleName p"
proof (induction "length elems" arbitrary: elems comps)
  case 0
  then show ?case by (subst (asm) moduleNameLoop.simps) (auto split: if_splits)
next
  case (Suc n)
  from Suc.hyps(2) have ne: "elems \<noteq> []" by auto
  have len: "n = length (butlast elems)" using Suc.hyps(2) by simp
  from Suc.prems ne
  have "moduleNameLoop t ex p (butlast elems) comps = Inl e
      \<or> moduleNameLoop t ex p (butlast elems) (t (last elems) # comps) = Inl e"
    by (subst (asm) moduleNameLoop.simps) (auto simp: Let_def split: if_splits)
  then show ?case using Suc.hyps(1)[OF len] by blast
qed

lemma uniqueModuleName_error:
  "uniqueModuleName t ex d p = Inl e \<Longrightarrow> e = CannotCreateUniqueModuleName p"
  by (auto simp: uniqueModuleName_def split: sum.splits dest: moduleNameLoop_error)

lemma uniqueModuleName_untaken:
  "defaultName d p \<notin> ex \<Longrightarrow> uniqueModuleName t ex d p = Inr (defaultName d p)"
  unfolding uniqueModuleName_def by (subst moduleNameLoop.simps) simp

lemma uniqueModuleName_first_free:
  assumes "k \<le> length (stringsSplit CHR ''/'' (removeModulePathVersionElements p))"
    and "\<forall>j<k. specCandidate t p (defaultName d p) j \<in> ex"
    and "specCandidate t p (defaultName d p) k \<notin> ex"
  shows "uniqueModuleName t ex d p = Inr (specCandidate t p (defaultName d p) k)"
  using moduleNameLoop_first_free[OF assms(1), of t "[defaultName d p]" ex p] assms(2,3)
  by (simp add: uniqueModuleName_def specCandidate_def)

lemma uniqueModuleName_exhausted:
  assumes "\<forall>j\<le>length (stringsSplit CHR ''/'' (removeModulePathVersionElements p)).
             specCandidate t p (defaultName d p) j \<in> ex"
  shows "uniqueModuleName t ex d p = Inl (CannotCreateUniqueModuleName p)"
  using moduleNameLoop_exhausted[of "stringsSplit CHR ''/'' (removeModulePathVersionElements p)" t "[defaultName d p]" ex p] assms
  by (simp add: uniqueModuleName_def specCandidate_def)

lemma audio_segments:
  "stringsSplit CHR ''/'' (removeModulePathVersionElements ''example.com/app/resources/audio'')
     = [''example.com'', ''app'', ''resources'', ''audio'']"
  by code_simp

lemma audio_candidates:
  assumes "t ''audio'' = ''audio''" and "t ''resources'' = ''resources''" and "t ''app'' = ''app''"
  shows "specCandidate t ''example.com/app/resources/audio'' ''audio'' 0 = ''audio''"
    and "specCandidate t ''example.com/app/resources/audio'' ''audio'' (Suc 0) = ''audio''"
    and "specCandidate t ''example.com/app/resources/audio'' ''audio'' (Suc (Suc 0)) = ''resources_audio''"
    and "specCandidate t ''example.com/app/resources/audio'' ''audio'' (Suc (Suc (Suc 0))) = ''app_resources_audio''"
  using assms by (simp_all add: specCandidate_def audio_segments)

text \<open>
  C8: the name of a module is the first candidate that is not taken, in the sequence that
  starts with the declared name and prepends the normalised trailing segments of the
  version-stripped path one by one, right to left, skipping a segment whose normalised
  form is already a component (so the components never repeat). When every candidate up
  to the one that has consumed all segments is taken, the result is the fatal error. For
  "example.com/app/resources/audio" with declared name "audio" taken the name is
  "resources_audio", and "app_resources_audio" when that is taken as well (for a
  \<open>toSnake\<close> that leaves these three lower-case segments as they are).
\<close>

theorem taken_name_is_extended_by_path_segments:
  "(k \<le> length (stringsSplit CHR ''/'' (removeModulePathVersionElements p))
      \<and> (\<forall>j<k. specCandidate t p (defaultName d p) j \<in> ex)
      \<and> specCandidate t p (defaultName d p) k \<notin> ex
     \<longrightarrow> uniqueModuleName t ex d p = Inr (specCandidate t p (defaultName d p) k))
   \<and> ((\<forall>j\<le>length (stringsSplit CHR ''/'' (removeModulePathVersionElements p)).
           specCandidate t p (defaultName d p) j \<in> ex2)
     \<longrightarrow> uniqueModuleName t ex2 d p = Inl (CannotCreateUniqueModuleName p))
   \<and> distinct (prependSegments t segs [declared])
   \<and> (t ''audio'' = ''audio'' \<and> t ''resources'' = ''resources'' \<and> t ''app'' = ''app''
        \<and> defaultName d3 ''example.com/app/resources/audio'' = ''audio''
        \<and> ''audio'' \<in> ex3 \<and> ''resources_audio'' \<notin> ex3
     \<longrightarrow> uniqueModuleName t ex3 d3 ''example.com/app/resources/audio'' = Inr ''resources_audio'')
   \<and> (t ''audio'' = ''audio'' \<and> t ''resources'' = ''resources'' \<and> t ''app'' = ''app''
        \<and> defaultName d4 ''example.com/app/resources/audio'' = ''audio''
        \<and> ''audio'' \<in> ex4 \<and> ''resources_audio'' \<in> ex4 \<and> ''app_resources_audio'' \<notin> ex4
     \<longrightarrow> uniqueModuleName t ex4 d4 ''example.com/app/resources/audio'' = Inr ''app_resources_audio'')"
proof (intro conjI impI)
  assume "k \<le> length (stringsSplit CHR ''/'' (removeModulePathVersionElements p))
      \<and> (\<forall>j<k. specCandidate t p (defaultName d p) j \<in> ex)
      \<and> specCandidate t p (defaultName d p) k \<notin> ex"
  then show "uniqueModuleName t ex d p = Inr (specCandidate t p (defaultName d p) k)"
    using uniqueModuleName_first_free by blast
next
  assume "\<forall>j\<le>length (stringsSplit CHR ''/'' (removeModulePathVersionElements p)).
           specCandidate t p (defaultName d p) j \<in> ex2"
  then show "uniqueModuleName t ex2 d p = Inl (CannotCreateUniqueModuleName p)"
    by (rule uniqueModuleName_exhausted)
next
  show "distinct (prependSegments t segs [declared])"
    by (rule prependSegments_distinct) simp
next
  let ?p = "''example.com/app/resources/audio''"
  assume h: "t ''audio'' = ''audio'' \<and> t ''resources'' = ''resources'' \<and> t ''app'' = ''app''
        \<and> defaultName d3 ?p = ''audio''
        \<and> ''audio'' \<in> ex3 \<and> ''resources_audio'' \<notin> ex3"
  then have c: "specCandidate t ?p (defaultName d3 ?p) 0 = ''audio''"
       "specCandidate t ?p (defaultName d3 ?p) (Suc 0) = ''audio''"
       "specCandidate t ?p (defaultName d3 ?p) (Suc (Suc 0)) = ''resources_audio''"
    using audio_candidates[of t] by simp_all
  have "\<forall>j<Suc (Suc 0). specCandidate t ?p (defaultName d3 ?p) j \<in> ex3"
    using h c by (auto simp: less_Suc_eq)
  moreover have "Suc (Suc 0) \<le> length (stringsSplit CHR ''/'' (removeModulePathVersionElements ?p))"
    by (simp add: audio_segments)
  moreover have "specCandidate t ?p (defaultName d3 ?p) (Suc (Suc 0)) \<notin> ex3"
    using h c by simp
  ultimately show "uniqueModuleName t ex3 d3 ?p = Inr ''resources_audio''"
    using uniqueModuleName_first_free[of "Suc (Suc 0)" ?p t d3 ex3] c by simp
next
  let ?p = "''example.com/app/resources/audio''"
  assume h: "t ''audio'' = ''audio'' \<and> t ''resources'' = ''resources'' \<and> t ''app'' = ''app''
        \<and> defaultName d4 ?p = ''audio''
        \<and> ''audio'' \<in> ex4 \<and> ''resources_audio'' \<in> ex4 \<and> ''app_resources_audio'' \<notin> ex4"
  then have c: "specCandidate t ?p (defaultName d4 ?p) 0 = ''audio''"
       "specCandidate t ?p (defaultName d4 ?p) (Suc 0) = ''audio''"
       "specCandidate t ?p (defaultName d4 ?p) (Suc (Suc 0)) = ''resources_audio''"
       "specCandidate t ?p (defaultName d4 ?p) (Suc (Suc (Suc 0))) = ''app_resources_audio''"
    using audio_candidates[of t] by simp_all
  have "\<forall>j<Suc (Suc (Suc 0)). specCandidate t ?p (defaultName d4 ?p) j \<in> ex4"
    using h c by (auto simp: less_Suc_eq)
  moreover have "Suc (Suc (Suc 0)) \<le> length (stringsSplit CHR ''/'' (removeModulePathVersionElements ?p))"
    by (simp add: audio_segments)
  moreover have "specCandidate t ?p (defaultName d4 ?p) (Suc (Suc (Suc 0))) \<notin> ex4"
    using h c by simp
  ultimately show "uniqueModuleName t ex4 d4 ?p = Inr ''app_resources_audio''"
    using uniqueModuleName_first_free[of "Suc (Suc (Suc 0))" ?p t d4 ex4] c by simp
qed


theorem taken_name_is_extended_by_path_segments_witness:
  "uniqueModuleName (\<lambda>s. s) {''audio''}
      [(''example.com/app/resources/audio'', ''audio'')] ''example.com/app/resources/audio''
     = Inr ''resources_audio''
   \<and> uniqueModuleName (\<lambda>s. s)
      {''audio'', ''resources_audio'', ''app_resources_audio'', ''example.com_app_resources_audio''}
      [(''example.com/app/resources/audio'', ''audio'')] ''example.com/app/resources/audio''
     = Inl (CannotCreateUniqueModuleName ''example.com/app/resources/audio'')
   \<and> uniqueModuleName (\<lambda>s. s) {''audio'', ''resources_audio''}
      [(''example.com/app/resources/audio'', ''audio'')] ''example.com/app/resources/audio''
     = Inr ''app_resources_audio''"
proof -
  let ?p = "''example.com/app/resources/audio''"
  let ?d = "[(?p, ''audio'')]"
  let ?t = "\<lambda>s::string. s"
  let ?all = "{''audio'', ''resources_audio'', ''app_resources_audio'', ''example.com_app_resources_audio''}"
  have dn: "defaultName ?d ?p = ''audio''" by (simp add: defaultName_def)
  have len: "length (stringsSplit CHR ''/'' (removeModulePathVersionElements ?p)) = Suc (Suc (Suc (Suc 0)))"
    by (simp add: audio_segments)
  have c: "specCandidate ?t ?p ''audio'' 0 = ''audio''"
          "specCandidate ?t ?p ''audio'' (Suc 0) = ''audio''"
          "specCandidate ?t ?p ''audio'' (Suc (Suc 0)) = ''resources_audio''"
          "specCandidate ?t ?p ''audio'' (Suc (Suc (Suc 0))) = ''app_resources_audio''"
          "specCandidate ?t ?p ''audio'' (Suc (Suc (Suc (Suc 0)))) = ''example.com_app_resources_audio''"
    by (simp_all add: specCandidate_def audio_segments)
  note T = taken_name_is_extended_by_path_segments[of "Suc (Suc 0)" ?p ?t ?d "{''audio''}" ?all
              "[]" "''audio''" ?d "{''audio''}" ?d "{''audio'', ''resources_audio''}"]
  have h1: "Suc (Suc 0) \<le> length (stringsSplit CHR ''/'' (removeModulePathVersionElements ?p))
      \<and> (\<forall>j<Suc (Suc 0). specCandidate ?t ?p (defaultName ?d ?p) j \<in> {''audio''})
      \<and> specCandidate ?t ?p (defaultName ?d ?p) (Suc (Suc 0)) \<notin> {''audio''}"
    by (simp add: len dn c less_Suc_eq)
  have h2: "\<forall>j\<le>length (stringsSplit CHR ''/'' (removeModulePathVersionElements ?p)).
           specCandidate ?t ?p (defaultName ?d ?p) j \<in> ?all"
    unfolding len dn by (simp add: le_Suc_eq c)
  have h3: "?t ''audio'' = ''audio'' \<and> ?t ''resources'' = ''resources'' \<and> ?t ''app'' = ''app''
        \<and> defaultName ?d ?p = ''audio''
        \<and> ''audio'' \<in> {''audio''} \<and> ''resources_audio'' \<notin> {''audio''}"
    by (simp add: dn)
  have h4: "?t ''audio'' = ''audio'' \<and> ?t ''resources'' = ''resources'' \<and> ?t ''app'' = ''app''
        \<and> defaultName ?d ?p = ''audio''
        \<and> ''audio'' \<in> {''audio'', ''resources_audio''}
        \<and> ''resources_audio'' \<in> {''audio'', ''resources_audio''}
        \<and> ''app_resources_audio'' \<notin> {''audio'', ''resources_audio''}"
    by (simp add: dn)
  from T h2 have r2: "uniqueModuleName ?t ?all ?d ?p = Inl (CannotCreateUniqueModuleName ?p)"
    by blast
  from T h3 have r3: "uniqueModuleName ?t {''audio''} ?d ?p = Inr ''resources_audio''"
    by blast
  from T h4 have r4: "uniqueModuleName ?t {''audio'', ''resources_audio''} ?d ?p = Inr ''app_resources_audio''"
    by blast
  from T h1 have r1: "uniqueModuleName ?t {''audio''} ?d ?p
      = Inr (specCandidate ?t ?p (defaultName ?d ?p) (Suc (Suc 0)))"
    by blast
  show ?thesis using r1 r2 r3 r4 by simp
qed

lemma sinkLeft_set: "set (sinkLeft cmp x ys) = insert x (set ys)"
  by (induction ys) auto

lemma sinkLeft_distinct: "distinct (sinkLeft cmp x ys) \<longleftrightarrow> x \<notin> set ys \<and> distinct ys"
  by (induction ys) (auto simp: sinkLeft_set)

lemma insertionSortCmpFunc_set:
  "set (insertionSortCmpFunc cmp acc xs) = set acc \<union> set xs"
  by (induction xs arbitrary: acc) (auto simp: sinkLeft_set)

lemma insertionSortCmpFunc_distinct:
  "distinct (insertionSortCmpFunc cmp acc xs) \<longleftrightarrow> distinct (acc @ xs)"
  by (induction xs arbitrary: acc) (auto simp: sinkLeft_set sinkLeft_distinct)

lemma slicesSortFunc_permutes:
  "set (slicesSortFunc cmp xs) = set xs" "distinct (slicesSortFunc cmp xs) \<longleftrightarrow> distinct xs"
  by (simp_all add: slicesSortFunc_def insertionSortCmpFunc_set insertionSortCmpFunc_distinct)

lemma assignModuleNames_injective:
  "assignModuleNames t d ks m ex = Inr m' \<Longrightarrow> distinct ks \<Longrightarrow> P \<inter> set ks = {} \<Longrightarrow>
   inj_on m P \<Longrightarrow> (\<forall>k\<in>P. \<exists>n\<in>ex. m k = Some n) \<Longrightarrow>
   inj_on m' (P \<union> set ks) \<and> (\<forall>k\<in>P \<union> set ks. m' k \<noteq> None)"
proof (induction ks arbitrary: m ex P)
  case Nil
  then show ?case by auto
next
  case (Cons k ks)
  from Cons.prems(1) obtain n where n: "uniqueModuleName t ex d k = Inr n"
    and rest: "assignModuleNames t d ks (m(k \<mapsto> n)) (insert n ex) = Inr m'"
    by (auto split: sum.splits)
  have fresh: "n \<notin> ex" using n by (rule uniqueModuleName_fresh)
  have kP: "k \<notin> P" using Cons.prems(3) by auto
  have dk: "distinct ks" and kk: "k \<notin> set ks" using Cons.prems(2) by simp_all
  have disj: "insert k P \<inter> set ks = {}" using Cons.prems(3) kk by auto
  have named: "\<forall>k'\<in>insert k P. \<exists>n'\<in>insert n ex. (m(k \<mapsto> n)) k' = Some n'"
    using Cons.prems(5) by auto
  have inj: "inj_on (m(k \<mapsto> n)) (insert k P)"
  proof (rule inj_onI)
    fix a b assume a: "a \<in> insert k P" and b: "b \<in> insert k P"
      and eq: "(m(k \<mapsto> n)) a = (m(k \<mapsto> n)) b"
    have other: "\<And>c. c \<in> P \<Longrightarrow> (m(k \<mapsto> n)) c \<noteq> Some n"
      using Cons.prems(5) fresh kP by auto
    show "a = b"
    proof (cases "a = k")
      case True
      then have "(m(k \<mapsto> n)) b = Some n" using eq by simp
      then show ?thesis using other b True by blast
    next
      case False
      then have aP: "a \<in> P" using a by simp
      then have "(m(k \<mapsto> n)) a \<noteq> Some n" by (rule other)
      then have "b \<noteq> k" using eq by auto
      then have "b \<in> P" using b by simp
      then show ?thesis using aP eq False \<open>b \<noteq> k\<close> Cons.prems(4) by (auto dest: inj_onD)
    qed
  qed
  from Cons.IH[OF rest dk disj inj named]
  show ?case by simp
qed

text \<open>
  The module paths of the input get pairwise distinct names, whatever order the sort
  returns. The entry of the sentinel is outside this statement.
\<close>

lemma module_paths_get_distinct_names:
  assumes "recursivelyGetRepo t pkg modDefaultNames = Inr m"
    and "distinct (map fst modDefaultNames)"
  shows "inj_on m (fst ` set modDefaultNames)"
proof -
  let ?ks = "slicesSortFunc (makeCompareModulePaths pkg) (map fst modDefaultNames)"
  have run: "assignModuleNames t modDefaultNames ?ks [''C'' \<mapsto> ''C''] {} = Inr m"
    using assms(1) by (simp add: recursivelyGetRepo_def Let_def)
  have d: "distinct ?ks" using assms(2) by (simp add: slicesSortFunc_permutes)
  from assignModuleNames_injective[OF run d, of "{}"]
  have "inj_on m (set ?ks)" by simp
  then show ?thesis by (simp add: slicesSortFunc_permutes)
qed

lemma slicesSortFunc_singleton: "slicesSortFunc cmp [x] = [x]"
  by (simp add: slicesSortFunc_def)

text \<open>
  C1, evaluated at a module that declares the package name "C": the sentinel entry and the
  module get the same unique name, because the set of taken names starts empty.
\<close>

theorem sentinel_shares_its_name:
  "\<forall>toSnake pkg. \<exists>m. recursivelyGetRepo toSnake pkg [(''example.com/c'', ''C'')] = Inr m
      \<and> m ''C'' = Some ''C'' \<and> m ''example.com/c'' = Some ''C''"
  by (simp add: recursivelyGetRepo_def slicesSortFunc_singleton uniqueModuleName_untaken
        defaultName_def)

lemma cycle_sorted_1:
  "slicesSortFunc (makeCompareModulePaths [])
     (map fst [(''x.y/lib'', ''lib''), (''x.y/lib/v2/v2'', ''other''), (''x.y/lib/v2'', ''lib'')])
   = [''x.y/lib'', ''x.y/lib/v2/v2'', ''x.y/lib/v2'']"
  by code_simp

lemma cycle_sorted_2:
  "slicesSortFunc (makeCompareModulePaths [])
     (map fst [(''x.y/lib/v2/v2'', ''other''), (''x.y/lib/v2'', ''lib''), (''x.y/lib'', ''lib'')])
   = [''x.y/lib/v2/v2'', ''x.y/lib/v2'', ''x.y/lib'']"
  by code_simp

text \<open>
  C4, evaluated at three module paths on which the comparator is cyclic: two runs that
  differ only in the order in which the Go map yields its keys return different results.
\<close>

theorem module_names_depend_on_map_iteration_order:
  "\<forall>toSnake.
     recursivelyGetRepo toSnake []
       [(''x.y/lib'', ''lib''), (''x.y/lib/v2/v2'', ''other''), (''x.y/lib/v2'', ''lib'')]
   \<noteq> recursivelyGetRepo toSnake []
       [(''x.y/lib/v2/v2'', ''other''), (''x.y/lib/v2'', ''lib''), (''x.y/lib'', ''lib'')]"
proof
  fix t :: "string \<Rightarrow> string"
  let ?d1 = "[(''x.y/lib'', ''lib''), (''x.y/lib/v2/v2'', ''other''), (''x.y/lib/v2'', ''lib'')]"
  let ?d2 = "[(''x.y/lib/v2/v2'', ''other''), (''x.y/lib/v2'', ''lib''), (''x.y/lib'', ''lib'')]"
  let ?ex = "{''other'', ''lib''}"
  let ?m1 = "[''C'' \<mapsto> ''C'', ''x.y/lib'' \<mapsto> ''lib'', ''x.y/lib/v2/v2'' \<mapsto> ''other'']"
  let ?m2 = "[''C'' \<mapsto> ''C'', ''x.y/lib/v2/v2'' \<mapsto> ''other'', ''x.y/lib/v2'' \<mapsto> ''lib'']"
  let ?r1 = "uniqueModuleName t ?ex ?d1 ''x.y/lib/v2''"
  let ?r2 = "uniqueModuleName t ?ex ?d2 ''x.y/lib''"
  have run1: "recursivelyGetRepo t [] ?d1 =
     (case ?r1 of Inl e \<Rightarrow> Inl e | Inr n \<Rightarrow> Inr (?m1(''x.y/lib/v2'' \<mapsto> n)))"
    unfolding recursivelyGetRepo_def cycle_sorted_1 Let_def
    by (simp add: uniqueModuleName_untaken defaultName_def split: sum.splits)
  have run2: "recursivelyGetRepo t [] ?d2 =
     (case ?r2 of Inl e \<Rightarrow> Inl e | Inr n \<Rightarrow> Inr (?m2(''x.y/lib'' \<mapsto> n)))"
    unfolding recursivelyGetRepo_def cycle_sorted_2 Let_def
    by (simp add: uniqueModuleName_untaken defaultName_def insert_commute split: sum.splits)
  show "recursivelyGetRepo t [] ?d1 \<noteq> recursivelyGetRepo t [] ?d2"
  proof (cases ?r1)
    case (Inl e1)
    then have e1: "e1 = CannotCreateUniqueModuleName ''x.y/lib/v2''"
      by (rule uniqueModuleName_error)
    show ?thesis
    proof (cases ?r2)
      case (Inl e2)
      then have "e2 = CannotCreateUniqueModuleName ''x.y/lib''"
        by (rule uniqueModuleName_error)
      then show ?thesis using e1 Inl \<open>?r1 = Inl e1\<close> by (simp add: run1 run2)
    next
      case (Inr n2)
      then show ?thesis using \<open>?r1 = Inl e1\<close> by (simp add: run1 run2)
    qed
  next
    case (Inr n1)
    show ?thesis
    proof (cases ?r2)
      case (Inl e2)
      then show ?thesis using Inr by (simp add: run1 run2)
    next
      case (Inr n2)
      then have "n2 \<notin> ?ex" by (rule uniqueModuleName_fresh)
      then have "n2 \<noteq> ''lib''" by auto
      then have "(?m1(''x.y/lib/v2'' \<mapsto> n1)) ''x.y/lib'' \<noteq> (?m2(''x.y/lib'' \<mapsto> n2)) ''x.y/lib''"
        by simp
      then have "?m1(''x.y/lib/v2'' \<mapsto> n1) \<noteq> ?m2(''x.y/lib'' \<mapsto> n2)"
        by metis
      then show ?thesis using Inr \<open>?r1 = Inr n1\<close> by (simp add: run1 run2)
    qed
  qed
qed

section \<open>Properties of the Binding Namer\<close>

lemma namerStep_length:
  "namerStep p u i st = Inr st' \<Longrightarrow> length (nameCandidates st') = length (nameCandidates st)"
  by (auto simp: namerStep_def Let_def split: if_splits option.splits)

lemma namerStep_found_mono:
  "namerStep p u i st = Inr st' \<Longrightarrow> foundConflict st \<Longrightarrow> foundConflict st'"
  by (auto simp: namerStep_def Let_def split: if_splits option.splits)

lemma namerStep_quiet:
  "namerStep p u i st = Inr st' \<Longrightarrow> \<not> foundConflict st' \<Longrightarrow>
     topNames st (hd (nameCandidates st ! i)) = None
     \<and> st' = st\<lparr>topNames := (topNames st)(hd (nameCandidates st ! i) \<mapsto> i)\<rparr>"
  by (auto simp: namerStep_def Let_def split: if_splits option.splits)

lemma namerPass_length:
  "namerPass p u is st = Inr st' \<Longrightarrow> length (nameCandidates st') = length (nameCandidates st)"
proof (induction "is" arbitrary: st)
  case Nil
  then show ?case by simp
next
  case (Cons i rest)
  then show ?case by (auto split: sum.splits dest: namerStep_length)
qed

lemma namerPass_found_mono:
  "namerPass p u is st = Inr st' \<Longrightarrow> foundConflict st \<Longrightarrow> foundConflict st'"
proof (induction "is" arbitrary: st)
  case Nil
  then show ?case by simp
next
  case (Cons i rest)
  then show ?case by (auto split: sum.splits dest: namerStep_found_mono)
qed

lemma namerPass_quiet:
  "namerPass p u is st = Inr st' \<Longrightarrow> \<not> foundConflict st' \<Longrightarrow>
     nameCandidates st' = nameCandidates st \<and> warn st' = warn st
     \<and> distinct (map (\<lambda>i. hd (nameCandidates st ! i)) is)
     \<and> (\<forall>i\<in>set is. hd (nameCandidates st ! i) \<notin> dom (topNames st))
     \<and> dom (topNames st') = dom (topNames st) \<union> (\<lambda>i. hd (nameCandidates st ! i)) ` set is"
proof (induction "is" arbitrary: st)
  case Nil
  then show ?case by simp
next
  case (Cons i rest)
  from Cons.prems(1) obtain st1 where s1: "namerStep p u i st = Inr st1"
    and r: "namerPass p u rest st1 = Inr st'"
    by (auto split: sum.splits)
  have nf1: "\<not> foundConflict st1"
    using namerPass_found_mono[OF r] Cons.prems(2) by blast
  from namerStep_quiet[OF s1 nf1]
  have none: "topNames st (hd (nameCandidates st ! i)) = None"
    and st1: "st1 = st\<lparr>topNames := (topNames st)(hd (nameCandidates st ! i) \<mapsto> i)\<rparr>"
    by simp_all
  have c1: "nameCandidates st1 = nameCandidates st" and w1: "warn st1 = warn st"
    and t1: "dom (topNames st1) = insert (hd (nameCandidates st ! i)) (dom (topNames st))"
    by (simp_all add: st1)
  note ih = Cons.IH[OF r Cons.prems(2)]
  have notin: "hd (nameCandidates st ! i) \<notin> dom (topNames st)"
    using none by (simp add: dom_def)
  show ?case using ih notin unfolding c1 w1 t1 by auto
qed

lemma namerLoop_distinct:
  "namerLoop fuel p u cands w = Some (Inr (names, w')) \<Longrightarrow> length cands = length u \<Longrightarrow>
     distinct names \<and> length names = length u"
proof (induction fuel arbitrary: cands w)
  case 0
  then show ?case by simp
next
  case (Suc fuel)
  let ?pass = "namerPass p u [0..<length u] (passStart cands w)"
  from Suc.prems(1) obtain st where st: "?pass = Inr st"
    by (auto split: sum.splits)
  have len: "length (nameCandidates st) = length u"
    using namerPass_length[OF st] Suc.prems(2) by (simp add: passStart_def)
  show ?case
  proof (cases "foundConflict st")
    case True
    then have "namerLoop fuel p u (nameCandidates st) (warn st) = Some (Inr (names, w'))"
      using Suc.prems(1) st by simp
    then show ?thesis using Suc.IH len by blast
  next
    case False
    then have names: "names = map hd (nameCandidates st)"
      using Suc.prems(1) st by simp
    from namerPass_quiet[OF st False]
    have same: "nameCandidates st = cands"
      and d: "distinct (map (\<lambda>i. hd (cands ! i)) [0..<length u])"
      by (simp_all add: passStart_def)
    have "map hd (map ((!) cands) [0..<length cands]) = map hd cands"
      by (simp only: map_nth)
    then have "map (\<lambda>i. hd (cands ! i)) [0..<length cands] = map hd cands"
      by (simp add: comp_def)
    then show ?thesis using d names same Suc.prems(2) by simp
  qed
qed

text \<open>
  C2: when the conflict loop completes without a fatal error, the final display names, one
  per binding, are pairwise distinct.
\<close>

theorem final_names_pairwise_distinct:
  assumes "bindingNames fuel noPrefix ryeified sortedBindings w = Some (Inr (names, w'))"
  shows "distinct names \<and> length names = length sortedBindings"
  using namerLoop_distinct[OF assms[unfolded bindingNames_def]]
  by (simp add: initialCandidates_def)


lemma print_run:
  "bindingNames 2 [''fmt'', ''example.com/app''] printCandidates printBindings []
     = Some (Inr ([''app-print'', ''print''], []))"
  by code_simp

theorem final_names_pairwise_distinct_witness:
  "bindingNames 2 [''fmt'', ''example.com/app''] printCandidates printBindings []
     = Some (Inr ([''app-print'', ''print''], []))
   \<and> distinct [''app-print'', ''print'']"
  using final_names_pairwise_distinct[OF print_run] print_run by simp

lemma namerStep_keeps:
  assumes "namerStep p u i st = Inr st'"
    and "\<forall>otherI. topNames st (hd (nameCandidates st ! i)) = Some otherI \<longrightarrow> unharmed p k (i, otherI)"
  shows "nameCandidates st' ! k = nameCandidates st ! k"
proof (cases "topNames st (hd (nameCandidates st ! i))")
  case None
  then show ?thesis using assms(1)
    by (auto simp: namerStep_def Let_def split: if_splits)
next
  case (Some otherI)
  then have u: "unharmed p k (i, otherI)" using assms(2) by simp
  consider (lower) "p ! otherI < p ! i" | (higher) "p ! i < p ! otherI"
    | (tie) "\<not> p ! otherI < p ! i" "\<not> p ! i < p ! otherI"
    by blast
  then show ?thesis
  proof cases
    case lower
    then have "i \<noteq> k" using u by (auto simp: unharmed_def)
    then show ?thesis using assms(1) Some lower
      by (auto simp: namerStep_def Let_def split: if_splits)
  next
    case higher
    then have "otherI \<noteq> k" using u by (auto simp: unharmed_def)
    then show ?thesis using assms(1) Some higher
      by (auto simp: namerStep_def Let_def split: if_splits)
  next
    case tie
    then have "i \<noteq> k" using u by (auto simp: unharmed_def)
    then show ?thesis using assms(1) Some tie
      by (auto simp: namerStep_def Let_def split: if_splits)
  qed
qed

lemma namerPass_keeps:
  "namerPass p u is st = Inr st' \<Longrightarrow>
   \<forall>c\<in>set (passCollisions p u is st). unharmed p k c \<Longrightarrow>
   nameCandidates st' ! k = nameCandidates st ! k"
proof (induction "is" arbitrary: st)
  case Nil
  then show ?case by simp
next
  case (Cons i rest)
  from Cons.prems(1) obtain st1 where s1: "namerStep p u i st = Inr st1"
    and r: "namerPass p u rest st1 = Inr st'"
    by (auto split: sum.splits)
  have here: "\<forall>otherI. topNames st (hd (nameCandidates st ! i)) = Some otherI \<longrightarrow> unharmed p k (i, otherI)"
    using Cons.prems(2) s1 by auto
  have later: "\<forall>c\<in>set (passCollisions p u rest st1). unharmed p k c"
    using Cons.prems(2) s1 by auto
  show ?case
    using namerStep_keeps[OF s1 here] Cons.IH[OF r later] by simp
qed

lemma namerLoop_keeps:
  "namerLoop fuel p u cands w = Some (Inr (names, w')) \<Longrightarrow> k < length cands \<Longrightarrow>
   \<forall>c\<in>set (loopCollisions fuel p u cands w). unharmed p k c \<Longrightarrow>
   names ! k = hd (cands ! k)"
proof (induction fuel arbitrary: cands w)
  case 0
  then show ?case by simp
next
  case (Suc fuel)
  let ?pass = "namerPass p u [0..<length u] (passStart cands w)"
  from Suc.prems(1) obtain st where st: "?pass = Inr st"
    by (auto split: sum.splits)
  have len: "length (nameCandidates st) = length cands"
    using namerPass_length[OF st] by (simp add: passStart_def)
  have "\<forall>c\<in>set (passCollisions p u [0..<length u] (passStart cands w)). unharmed p k c"
    using Suc.prems(3) by simp
  from namerPass_keeps[OF st this]
  have same: "nameCandidates st ! k = cands ! k" by (simp add: passStart_def)
  show ?case
  proof (cases "foundConflict st")
    case True
    then have run: "namerLoop fuel p u (nameCandidates st) (warn st) = Some (Inr (names, w'))"
      using Suc.prems(1) st by simp
    have "\<forall>c\<in>set (loopCollisions fuel p u (nameCandidates st) (warn st)). unharmed p k c"
      using Suc.prems(3) st True by simp
    from Suc.IH[OF run _ this] len Suc.prems(2) same show ?thesis by simp
  next
    case False
    then have "names = map hd (nameCandidates st)"
      using Suc.prems(1) st by simp
    then show ?thesis using same len Suc.prems(2) by simp
  qed
qed


text \<open>
  C3: a binding whose priority number is strictly lower than that of every binding it
  collides with during the run (whether it is the one being processed or the one found in
  \<open>topNames\<close>) ends with its first-choice name, the head of its initial candidates.
\<close>

theorem lowest_priority_keeps_first_choice:
  assumes "bindingNames fuel noPrefix ryeified sortedBindings w = Some (Inr (names, w'))"
    and "k < length sortedBindings"
    and "\<forall>(i, otherI)\<in>set (bindingCollisions fuel noPrefix ryeified sortedBindings w).
           (i = k \<longrightarrow> map (namePrio noPrefix) sortedBindings ! k
                        < map (namePrio noPrefix) sortedBindings ! otherI)
         \<and> (otherI = k \<longrightarrow> map (namePrio noPrefix) sortedBindings ! k
                        < map (namePrio noPrefix) sortedBindings ! i)"
  shows "names ! k
           = hd (ryeified (sortedBindings ! k) (namePrio noPrefix (sortedBindings ! k) \<noteq> mathMaxInt))"
proof -
  let ?p = "map (namePrio noPrefix) sortedBindings"
  let ?cands = "initialCandidates noPrefix ryeified sortedBindings"
  have k: "k < length ?cands" using assms(2) by (simp add: initialCandidates_def)
  have "\<forall>c\<in>set (loopCollisions fuel ?p (map bindUniqueName sortedBindings) ?cands w).
          unharmed ?p k c"
    using assms(3) unfolding bindingCollisions_def unharmed_def by fastforce
  from namerLoop_keeps[OF assms(1)[unfolded bindingNames_def] k this]
  show ?thesis using assms(2) by (simp add: initialCandidates_def)
qed

lemma print_collisions:
  "bindingCollisions 2 [''fmt'', ''example.com/app''] printCandidates printBindings [] = [(1, 0)]"
  by code_simp

theorem lowest_priority_keeps_first_choice_witness:
  "bindingNames 2 [''fmt'', ''example.com/app''] printCandidates printBindings []
     = Some (Inr ([''app-print'', ''print''], []))
   \<and> [''app-print'', ''print''] ! 1
     = hd (printCandidates (printBindings ! 1)
            (namePrio [''fmt'', ''example.com/app''] (printBindings ! 1) \<noteq> mathMaxInt))"
proof -
  have k: "(1::nat) < length printBindings" by (simp add: printBindings_def)
  have prios: "map (namePrio [''fmt'', ''example.com/app'']) printBindings = [1, 0]"
    by code_simp
  have c: "\<forall>(i, otherI)\<in>set (bindingCollisions 2 [''fmt'', ''example.com/app''] printCandidates printBindings []).
           (i = 1 \<longrightarrow> map (namePrio [''fmt'', ''example.com/app'']) printBindings ! 1
                        < map (namePrio [''fmt'', ''example.com/app'']) printBindings ! otherI)
         \<and> (otherI = 1 \<longrightarrow> map (namePrio [''fmt'', ''example.com/app'']) printBindings ! 1
                        < map (namePrio [''fmt'', ''example.com/app'']) printBindings ! i)"
    unfolding print_collisions prios by simp
  show ?thesis
    using lowest_priority_keeps_first_choice[OF print_run k c] print_run by simp
qed

lemma namerPass_append:
  "namerPass p u (xs @ ys) st =
     (case namerPass p u xs st of Inl e \<Rightarrow> Inl e | Inr st' \<Rightarrow> namerPass p u ys st')"
  by (induction xs arbitrary: st) (auto split: sum.splits)

lemma namerStep_registered:
  assumes reg: "registered i st" and step: "namerStep p u i st = Inr st'"
    and i: "i < length (nameCandidates st)"
  shows "registered (Suc i) st'"
proof -
  let ?c = "nameCandidates st" and ?top = "hd (nameCandidates st ! i)"
  have ne: "?c ! i \<noteq> []" using step by (auto simp: namerStep_def split: if_splits)
  show ?thesis
  proof (cases "topNames st ?top")
    case None
    then have st': "st' = st\<lparr>topNames := (topNames st)(?top \<mapsto> i)\<rparr>"
      using step ne by (simp add: namerStep_def Let_def)
    show ?thesis unfolding registered_def st'
      using reg ne by (auto simp: registered_def less_Suc_eq)
  next
    case (Some otherI)
    then have o: "otherI < i" "?c ! otherI \<noteq> []" "hd (?c ! otherI) = ?top"
      using reg by (auto simp: registered_def)
    consider (lower) "p ! otherI < p ! i" | (higher) "\<not> p ! otherI < p ! i" "p ! i < p ! otherI"
      | (tie) "\<not> p ! otherI < p ! i" "\<not> p ! i < p ! otherI"
      by blast
    then show ?thesis
    proof cases
      case lower
      then have st': "st' = st\<lparr>nameCandidates := ?c[i := tl (?c ! i)],
                       topNames := (topNames st)(?top \<mapsto> otherI),
                       foundConflict := True\<rparr>"
        using step ne Some by (simp add: namerStep_def Let_def)
      have same: "(topNames st)(?top \<mapsto> otherI) = topNames st"
        using Some by (rule map_upd_triv)
      show ?thesis unfolding registered_def st'
      proof (intro allI impI)
        fix n x
        assume "topNames (st\<lparr>nameCandidates := ?c[i := tl (?c ! i)],
                       topNames := (topNames st)(?top \<mapsto> otherI),
                       foundConflict := True\<rparr>) n = Some x"
        then have "topNames st n = Some x" by (simp add: same)
        then have x: "x < i" "?c ! x \<noteq> []" "hd (?c ! x) = n"
          using reg by (auto simp: registered_def)
        then show "x < Suc i \<and>
           nameCandidates (st\<lparr>nameCandidates := ?c[i := tl (?c ! i)],
                       topNames := (topNames st)(?top \<mapsto> otherI),
                       foundConflict := True\<rparr>) ! x \<noteq> [] \<and>
           hd (nameCandidates (st\<lparr>nameCandidates := ?c[i := tl (?c ! i)],
                       topNames := (topNames st)(?top \<mapsto> otherI),
                       foundConflict := True\<rparr>) ! x) = n"
          by simp
      qed
    next
      case higher
      then have st': "st' = st\<lparr>nameCandidates := ?c[otherI := tl (?c ! otherI)],
                          topNames := (topNames st)(?top \<mapsto> i),
                          foundConflict := True\<rparr>"
        using step ne Some o by (simp add: namerStep_def Let_def)
      show ?thesis unfolding registered_def st'
      proof (intro allI impI)
        fix n x
        assume a: "topNames (st\<lparr>nameCandidates := ?c[otherI := tl (?c ! otherI)],
                          topNames := (topNames st)(?top \<mapsto> i),
                          foundConflict := True\<rparr>) n = Some x"
        have "x < Suc i \<and> (?c[otherI := tl (?c ! otherI)]) ! x \<noteq> []
                \<and> hd ((?c[otherI := tl (?c ! otherI)]) ! x) = n"
        proof (cases "n = ?top")
          case True
          then have "x = i" using a by simp
          then show ?thesis using True ne o by simp
        next
          case False
          then have "topNames st n = Some x" using a by simp
          then have x: "x < i" "?c ! x \<noteq> []" "hd (?c ! x) = n"
            using reg by (auto simp: registered_def)
          then have "x \<noteq> otherI" using False o by auto
          then show ?thesis using x by simp
        qed
        then show "x < Suc i \<and>
           nameCandidates (st\<lparr>nameCandidates := ?c[otherI := tl (?c ! otherI)],
                          topNames := (topNames st)(?top \<mapsto> i),
                          foundConflict := True\<rparr>) ! x \<noteq> [] \<and>
           hd (nameCandidates (st\<lparr>nameCandidates := ?c[otherI := tl (?c ! otherI)],
                          topNames := (topNames st)(?top \<mapsto> i),
                          foundConflict := True\<rparr>) ! x) = n"
          by simp
      qed
    next
      case tie
      let ?new = "?top @ ''-1''"
      let ?st = "st\<lparr>warn := warn st @ [conflictWarning (u ! i) (u ! otherI) ?top],
                       nameCandidates := ?c[i := ?new # tl (?c ! i)],
                       topNames := (topNames st)(?new \<mapsto> i),
                       foundConflict := True\<rparr>"
      from tie have st': "st' = ?st"
        using step ne Some by (simp add: namerStep_def Let_def)
      show ?thesis unfolding registered_def st'
      proof (intro allI impI)
        fix n x
        assume a: "topNames ?st n = Some x"
        have "x < Suc i \<and> (?c[i := ?new # tl (?c ! i)]) ! x \<noteq> []
                \<and> hd ((?c[i := ?new # tl (?c ! i)]) ! x) = n"
        proof (cases "n = ?new")
          case True
          then have "x = i" using a by simp
          then show ?thesis using True i by simp
        next
          case False
          then have "topNames st n = Some x" using a by simp
          then have x: "x < i" "?c ! x \<noteq> []" "hd (?c ! x) = n"
            using reg by (auto simp: registered_def)
          then show ?thesis by simp
        qed
        then show "x < Suc i \<and> nameCandidates ?st ! x \<noteq> [] \<and> hd (nameCandidates ?st ! x) = n"
          by simp
      qed
    qed
  qed
qed

lemma namerPass_registered:
  "namerPass p u [0..<i] (passStart cands w) = Inr st \<Longrightarrow> i \<le> length cands \<Longrightarrow> registered i st"
proof (induction i arbitrary: st)
  case 0
  then show ?case by (auto simp: registered_def passStart_def)
next
  case (Suc i)
  from Suc.prems(1) obtain st1 where p1: "namerPass p u [0..<i] (passStart cands w) = Inr st1"
    and s: "namerStep p u i st1 = Inr st"
    by (auto simp: namerPass_append split: sum.splits)
  have r1: "registered i st1" using Suc.IH[OF p1] Suc.prems(2) by simp
  have "length (nameCandidates st1) = length cands"
    using namerPass_length[OF p1] by (simp add: passStart_def)
  then have "i < length (nameCandidates st1)" using Suc.prems(2) by simp
  from namerStep_registered[OF r1 s this] show ?case .
qed


lemma conflictWarning_names_both:
  "sublist key (conflictWarning key otherKey name) \<and> sublist otherKey (conflictWarning key otherKey name)"
proof
  have "conflictWarning key otherKey name
      = ''unable to resolve naming conflict between '' @ key
        @ ('' and '' @ otherKey @ '', renaming '' @ name @ '' to '' @ name @ ''-1'')"
    by (simp add: conflictWarning_def)
  then show "sublist key (conflictWarning key otherKey name)"
    unfolding sublist_def by blast
  have "conflictWarning key otherKey name
      = (''unable to resolve naming conflict between '' @ key @ '' and '') @ otherKey
        @ ('', renaming '' @ name @ '' to '' @ name @ ''-1'')"
    by (simp add: conflictWarning_def)
  then show "sublist otherKey (conflictWarning key otherKey name)"
    unfolding sublist_def by blast
qed

text \<open>
  C7: when the scan of a pass arrives at index \<open>i\<close>, finds the top candidate of \<open>i\<close> held by
  \<open>otherI\<close> and both have the same priority, then \<open>otherI\<close> was seen first and still holds
  that name, the step does not fail, it leaves the candidates of \<open>otherI\<close> (and of
  everyone but \<open>i\<close>) as they are, replaces the top candidate of \<open>i\<close> by itself followed
  by "-1", and appends one warning, which contains both unique names.
\<close>

theorem equal_priority_collision_renames_and_warns:
  assumes reach: "namerPass namePrios uniqueNames [0..<i] (passStart cands w) = Inr st"
    and i: "i < length cands"
    and top: "nameCandidates st ! i = topName # rest"
    and coll: "topNames st topName = Some otherI"
    and tie: "namePrios ! otherI = namePrios ! i"
  shows "otherI < i \<and> hd (nameCandidates st ! otherI) = topName
       \<and> (\<exists>st'. namerStep namePrios uniqueNames i st = Inr st'
             \<and> nameCandidates st' = (nameCandidates st)[i := (topName @ ''-1'') # rest]
             \<and> nameCandidates st' ! otherI = nameCandidates st ! otherI
             \<and> nameCandidates st' ! i = (topName @ ''-1'') # rest
             \<and> warn st' = warn st
                  @ [conflictWarning (uniqueNames ! i) (uniqueNames ! otherI) topName]
             \<and> sublist (uniqueNames ! i) (last (warn st'))
             \<and> sublist (uniqueNames ! otherI) (last (warn st'))
             \<and> foundConflict st')"
proof -
  have reg: "registered i st" using namerPass_registered[OF reach] i by simp
  then have o: "otherI < i" "hd (nameCandidates st ! otherI) = topName"
    using coll by (auto simp: registered_def)
  have len: "i < length (nameCandidates st)"
    using namerPass_length[OF reach] i by (simp add: passStart_def)
  let ?st = "st\<lparr>warn := warn st @ [conflictWarning (uniqueNames ! i) (uniqueNames ! otherI) topName],
                 nameCandidates := (nameCandidates st)[i := (topName @ ''-1'') # rest],
                 topNames := (topNames st)(topName @ ''-1'' \<mapsto> i),
                 foundConflict := True\<rparr>"
  have step: "namerStep namePrios uniqueNames i st = Inr ?st"
    using top coll tie by (simp add: namerStep_def Let_def)
  have "nameCandidates ?st ! otherI = nameCandidates st ! otherI"
    using o by simp
  moreover have "nameCandidates ?st ! i = (topName @ ''-1'') # rest"
    using len by simp
  moreover have "sublist (uniqueNames ! i) (last (warn ?st))"
      "sublist (uniqueNames ! otherI) (last (warn ?st))"
    using conflictWarning_names_both by simp_all
  ultimately show ?thesis using o step by simp
qed

theorem equal_priority_collision_renames_and_warns_witness:
  "namerStep [mathMaxInt, mathMaxInt] [''example.com/app.Print'', ''fmt.Print''] (Suc 0)
     \<lparr>nameCandidates = [[''print'', ''app-print''], [''print'', ''fmt-print'']],
      topNames = [''print'' \<mapsto> 0], warn = [], foundConflict = False\<rparr>
   = Inr \<lparr>nameCandidates = [[''print'', ''app-print''], [''print-1'', ''fmt-print'']],
          topNames = [''print'' \<mapsto> 0, ''print-1'' \<mapsto> Suc 0],
          warn = [''unable to resolve naming conflict between fmt.Print and example.com/app.Print, renaming print to print-1''],
          foundConflict = True\<rparr>"
proof -
  let ?p = "[mathMaxInt, mathMaxInt]"
  let ?u = "[''example.com/app.Print'', ''fmt.Print'']"
  let ?cands = "[[''print'', ''app-print''], [''print'', ''fmt-print'']]"
  let ?st = "\<lparr>nameCandidates = ?cands, topNames = [''print'' \<mapsto> (0::nat)],
              warn = ([]::string list), foundConflict = False\<rparr>"
  have reach: "namerPass ?p ?u [0..<Suc 0] (passStart ?cands []) = Inr ?st"
    by (simp add: passStart_def namerStep_def)
  have i: "Suc 0 < length ?cands" by simp
  have top: "nameCandidates ?st ! Suc 0 = ''print'' # [''fmt-print'']" by simp
  have coll: "topNames ?st ''print'' = Some 0" by simp
  have tie: "?p ! 0 = ?p ! Suc 0" by simp
  from equal_priority_collision_renames_and_warns[OF reach i top coll tie]
  obtain st' where "namerStep ?p ?u (Suc 0) ?st = Inr st'"
    and "nameCandidates st' = (nameCandidates ?st)[Suc 0 := (''print'' @ ''-1'') # [''fmt-print'']]"
    by blast
  then show ?thesis
    by (auto simp: namerStep_def conflictWarning_def Let_def)
qed

section \<open>Properties of the Generic-Implementation Closure\<close>

lemma set_fold_insert: "set (fold List.insert xs ys) = set xs \<union> set ys"
  by (induction xs arbitrary: ys) auto

lemma closureInv_store:
  assumes inv0: "closureInv genImpl keys0 keys impls"
    and name: "name \<in> requiredKeys genImpl keys0"
    and fresh: "name \<notin> fst ` set impls"
    and g: "genImpl name = Inr (impl, required)"
  shows "closureInv genImpl keys0 (fold List.insert required keys) (impls @ [(name, impl)])"
proof -
  let ?R = "requiredKeys genImpl keys0"
  let ?keys1 = "fold List.insert required keys"
  let ?impls1 = "impls @ [(name, impl)]"
  from inv0 have i1: "set keys0 \<subseteq> set keys" and i2: "set keys \<subseteq> ?R"
    and i3: "fst ` set impls \<subseteq> ?R" and i4: "distinct (map fst impls)"
    and i5: "\<forall>(k, t)\<in>set impls. \<exists>rq. genImpl k = Inr (t, rq) \<and> set rq \<subseteq> set keys"
    unfolding closureInv_def by blast+
  have reqR: "set required \<subseteq> ?R"
  proof
    fix k' assume "k' \<in> set required"
    then show "k' \<in> ?R" by (rule requiredKeys.requires[OF name g])
  qed
  have k1: "set ?keys1 = set required \<union> set keys" by (rule set_fold_insert)
  have a1: "set keys0 \<subseteq> set ?keys1" unfolding k1 using i1 by blast
  have a2: "set ?keys1 \<subseteq> ?R" unfolding k1 using i2 reqR by blast
  have a3: "fst ` set ?impls1 \<subseteq> ?R" using i3 name by simp
  have a4: "distinct (map fst ?impls1)" using i4 fresh by simp
  have a5: "\<forall>(k, t)\<in>set ?impls1. \<exists>rq. genImpl k = Inr (t, rq) \<and> set rq \<subseteq> set ?keys1"
  proof (intro ballI, clarify)
    fix k t assume "(k, t) \<in> set ?impls1"
    then consider "(k, t) \<in> set impls" | "k = name" "t = impl" by auto
    then show "\<exists>rq. genImpl k = Inr (t, rq) \<and> set rq \<subseteq> set ?keys1"
    proof cases
      case 1
      then obtain rq where "genImpl k = Inr (t, rq)" "set rq \<subseteq> set keys"
        using i5 by fast
      then show ?thesis unfolding k1 by blast
    next
      case 2
      then show ?thesis unfolding k1 using g by blast
    qed
  qed
  show ?thesis unfolding closureInv_def using a1 a2 a3 a4 a5 by blast
qed

lemma closureScan_succeeds:
  assumes ok: "\<forall>k\<in>requiredKeys genImpl keys0. \<exists>txt required. genImpl k = Inr (txt, required)"
  shows "set ks \<subseteq> requiredKeys genImpl keys0 \<Longrightarrow> \<exists>st'. closureScan genImpl ks st = Inr st'"
proof (induction ks arbitrary: st)
  case Nil
  then show ?case by simp
next
  case (Cons name rest)
  then have rest: "set rest \<subseteq> requiredKeys genImpl keys0"
    and name: "name \<in> requiredKeys genImpl keys0" by auto
  from ok name obtain impl required where g: "genImpl name = Inr (impl, required)" by blast
  show ?case using Cons.IH[OF rest] g by simp
qed

lemma closureScan_inv:
  "closureScan genImpl ks st = Inr st' \<Longrightarrow> set ks \<subseteq> requiredKeys genImpl keys0 \<Longrightarrow>
   closureInv genImpl keys0 (depsKeys st) (genericIfaceImpls st) \<Longrightarrow>
   closureInv genImpl keys0 (depsKeys st') (genericIfaceImpls st')"
proof (induction ks arbitrary: st)
  case Nil
  then show ?case by simp
next
  case (Cons name rest)
  then have rest: "set rest \<subseteq> requiredKeys genImpl keys0"
    and name: "name \<in> requiredKeys genImpl keys0" by auto
  show ?case
  proof (cases "name \<in> fst ` set (genericIfaceImpls st)")
    case True
    then have "closureScan genImpl rest st = Inr st'" using Cons.prems(1) by simp
    then show ?thesis using Cons.IH rest Cons.prems(3) by blast
  next
    case False
    then obtain impl required where g: "genImpl name = Inr (impl, required)"
      using Cons.prems(1) by (auto split: sum.splits)
    let ?st1 = "st\<lparr>depsKeys := fold List.insert required (depsKeys st),
                     genericIfaceImpls := genericIfaceImpls st @ [(name, impl)],
                     addedImpl := True\<rparr>"
    have s: "closureScan genImpl rest ?st1 = Inr st'"
      using Cons.prems(1) False g by simp
    have "closureInv genImpl keys0 (depsKeys ?st1) (genericIfaceImpls ?st1)"
      using closureInv_store[OF Cons.prems(3) name False g] by simp
    from Cons.IH[OF s rest this] show ?thesis .
  qed
qed

lemma closureScan_covers:
  "closureScan genImpl ks st = Inr st' \<Longrightarrow>
   fst ` set (genericIfaceImpls st) \<subseteq> fst ` set (genericIfaceImpls st')
   \<and> set ks \<subseteq> fst ` set (genericIfaceImpls st')"
proof (induction ks arbitrary: st)
  case Nil
  then show ?case by simp
next
  case (Cons name rest)
  show ?case
  proof (cases "name \<in> fst ` set (genericIfaceImpls st)")
    case True
    then have "closureScan genImpl rest st = Inr st'" using Cons.prems by simp
    from Cons.IH[OF this] True show ?thesis by auto
  next
    case False
    then obtain impl required where g: "genImpl name = Inr (impl, required)"
      using Cons.prems by (auto split: sum.splits)
    let ?st1 = "st\<lparr>depsKeys := fold List.insert required (depsKeys st),
                     genericIfaceImpls := genericIfaceImpls st @ [(name, impl)],
                     addedImpl := True\<rparr>"
    have s: "closureScan genImpl rest ?st1 = Inr st'"
      using Cons.prems False g by simp
    from Cons.IH[OF s] show ?thesis by auto
  qed
qed

lemma closureScan_added_mono:
  "closureScan genImpl ks st = Inr st' \<Longrightarrow> addedImpl st \<Longrightarrow> addedImpl st'"
proof (induction ks arbitrary: st)
  case Nil
  then show ?case by simp
next
  case (Cons name rest)
  show ?case
  proof (cases "name \<in> fst ` set (genericIfaceImpls st)")
    case True
    then have "closureScan genImpl rest st = Inr st'" using Cons.prems by simp
    from Cons.IH[OF this Cons.prems(2)] show ?thesis .
  next
    case False
    then obtain impl required where g: "genImpl name = Inr (impl, required)"
      using Cons.prems by (auto split: sum.splits)
    let ?st1 = "st\<lparr>depsKeys := fold List.insert required (depsKeys st),
                     genericIfaceImpls := genericIfaceImpls st @ [(name, impl)],
                     addedImpl := True\<rparr>"
    have s: "closureScan genImpl rest ?st1 = Inr st'"
      using Cons.prems False g by simp
    from Cons.IH[OF s] show ?thesis by simp
  qed
qed

lemma closureScan_quiet:
  "closureScan genImpl ks st = Inr st' \<Longrightarrow> \<not> addedImpl st' \<Longrightarrow> st' = st"
proof (induction ks arbitrary: st)
  case Nil
  then show ?case by simp
next
  case (Cons name rest)
  show ?case
  proof (cases "name \<in> fst ` set (genericIfaceImpls st)")
    case True
    then have "closureScan genImpl rest st = Inr st'" using Cons.prems by simp
    from Cons.IH[OF this Cons.prems(2)] show ?thesis .
  next
    case False
    then obtain impl required where g: "genImpl name = Inr (impl, required)"
      using Cons.prems by (auto split: sum.splits)
    let ?st1 = "st\<lparr>depsKeys := fold List.insert required (depsKeys st),
                     genericIfaceImpls := genericIfaceImpls st @ [(name, impl)],
                     addedImpl := True\<rparr>"
    have s: "closureScan genImpl rest ?st1 = Inr st'"
      using Cons.prems False g by simp
    have "addedImpl st'" using closureScan_added_mono[OF s] by simp
    then show ?thesis using Cons.prems(2) by simp
  qed
qed

lemma closureScan_grows:
  "closureScan genImpl ks st = Inr st' \<Longrightarrow> \<not> addedImpl st \<Longrightarrow> addedImpl st' \<Longrightarrow>
   fst ` set (genericIfaceImpls st) \<noteq> fst ` set (genericIfaceImpls st')"
proof (induction ks arbitrary: st)
  case Nil
  then show ?case by simp
next
  case (Cons name rest)
  show ?case
  proof (cases "name \<in> fst ` set (genericIfaceImpls st)")
    case True
    then have "closureScan genImpl rest st = Inr st'" using Cons.prems by simp
    from Cons.IH[OF this Cons.prems(2,3)] show ?thesis .
  next
    case False
    then obtain impl required where g: "genImpl name = Inr (impl, required)"
      using Cons.prems by (auto split: sum.splits)
    let ?st1 = "st\<lparr>depsKeys := fold List.insert required (depsKeys st),
                     genericIfaceImpls := genericIfaceImpls st @ [(name, impl)],
                     addedImpl := True\<rparr>"
    have s: "closureScan genImpl rest ?st1 = Inr st'"
      using Cons.prems False g by simp
    have "name \<in> fst ` set (genericIfaceImpls st')"
      using closureScan_covers[OF s] by auto
    then show ?thesis using False by auto
  qed
qed

lemma closureLoop_terminates:
  assumes fin: "finite (requiredKeys genImpl keys0)"
    and ok: "\<forall>k\<in>requiredKeys genImpl keys0. \<exists>txt required. genImpl k = Inr (txt, required)"
  shows "closureInv genImpl keys0 keys impls \<Longrightarrow>
         \<exists>keys' impls'. closureLoop genImpl keys impls = Some (Inr (keys', impls'))
           \<and> closureInv genImpl keys0 keys' impls'
           \<and> set keys' \<subseteq> fst ` set impls'
           \<and> closureScan genImpl (sort (remdups keys'))
                 \<lparr>depsKeys = keys', genericIfaceImpls = impls', addedImpl = False\<rparr>
               = Inr \<lparr>depsKeys = keys', genericIfaceImpls = impls', addedImpl = False\<rparr>"
proof (induction "card (requiredKeys genImpl keys0 - fst ` set impls)" arbitrary: keys impls
        rule: less_induct)
  case less
  let ?R = "requiredKeys genImpl keys0"
  let ?st = "\<lparr>depsKeys = keys, genericIfaceImpls = impls, addedImpl = False\<rparr>"
  have ks: "set (sort (remdups keys)) \<subseteq> ?R"
    using less.prems by (simp add: closureInv_def)
  have inv: "closureInv genImpl keys0 (depsKeys ?st) (genericIfaceImpls ?st)"
    using less.prems by simp
  from closureScan_succeeds[OF ok ks] obtain st' where
    s: "closureScan genImpl (sort (remdups keys)) ?st = Inr st'"
    by blast
  have inv': "closureInv genImpl keys0 (depsKeys st') (genericIfaceImpls st')"
    by (rule closureScan_inv[OF s ks inv])
  have mono: "fst ` set impls \<subseteq> fst ` set (genericIfaceImpls st')"
    and cov: "set keys \<subseteq> fst ` set (genericIfaceImpls st')"
    using closureScan_covers[OF s] by simp_all
  have added: "addedImpl st' \<longrightarrow> fst ` set impls \<noteq> fst ` set (genericIfaceImpls st')"
    using closureScan_grows[OF s] by simp
  have quiet: "\<not> addedImpl st' \<longrightarrow> st' = ?st"
    using closureScan_quiet[OF s] by simp
  show ?case
  proof (cases "addedImpl st'")
    case False
    then have st': "st' = ?st" using quiet by simp
    have "closureLoop genImpl keys impls = Some (Inr (keys, impls))"
      by (subst closureLoop.simps) (simp add: s st')
    then show ?thesis using less.prems cov s st' by auto
  next
    case True
    have sub: "fst ` set (genericIfaceImpls st') \<subseteq> ?R"
      using inv' by (simp add: closureInv_def)
    have "?R - fst ` set (genericIfaceImpls st') \<subset> ?R - fst ` set impls"
      using mono added True sub by blast
    then have dec: "card (?R - fst ` set (genericIfaceImpls st')) < card (?R - fst ` set impls)"
      using fin by (simp add: psubset_card_mono)
    have "closureLoop genImpl keys impls
            = closureLoop genImpl (depsKeys st') (genericIfaceImpls st')"
      by (subst closureLoop.simps) (simp add: s True)
    then show ?thesis using less.hyps[OF dec inv'] by simp
  qed
qed

lemma closureInv_covers:
  assumes inv: "closureInv genImpl keys0 keys impls" and closed: "set keys \<subseteq> fst ` set impls"
  shows "k \<in> requiredKeys genImpl keys0 \<Longrightarrow> k \<in> fst ` set impls"
proof (induction rule: requiredKeys.induct)
  case (initial k)
  then show ?case using inv closed by (auto simp: closureInv_def)
next
  case (requires k ifaceImpl required k')
  from requires.IH obtain t where "(k, t) \<in> set impls" by auto
  then obtain required' where "genImpl k = Inr (t, required')" "set required' \<subseteq> set keys"
    using inv by (auto simp: closureInv_def)
  then have "k' \<in> set keys" using requires.hyps(2,3) by auto
  then show ?case using closed by blast
qed

text \<open>
  C5: when only finitely many keys are reachable from the initial requests and the
  synthesis of each of them succeeds, the closure loop terminates without an error; the
  keys of the resulting map are exactly the reachable keys, each key is stored once (so it
  was synthesised once) with the text its synthesis returned, and the loop has stopped at
  a state in which a full scan adds nothing.
\<close>

theorem closure_terminates_with_every_reachable_key_once:
  assumes "finite (requiredKeys genImpl keys)"
    and "\<forall>k\<in>requiredKeys genImpl keys. \<exists>ifaceImpl required. genImpl k = Inr (ifaceImpl, required)"
  shows "\<exists>keys' impls. closureLoop genImpl keys [] = Some (Inr (keys', impls))
           \<and> distinct (map fst impls)
           \<and> fst ` set impls = requiredKeys genImpl keys
           \<and> (\<forall>(k, ifaceImpl)\<in>set impls. \<exists>required. genImpl k = Inr (ifaceImpl, required))
           \<and> closureScan genImpl (sort (remdups keys'))
                 \<lparr>depsKeys = keys', genericIfaceImpls = impls, addedImpl = False\<rparr>
               = Inr \<lparr>depsKeys = keys', genericIfaceImpls = impls, addedImpl = False\<rparr>"
proof -
  have "closureInv genImpl keys keys []"
    by (auto simp: closureInv_def intro: requiredKeys.initial)
  from closureLoop_terminates[OF assms this] obtain keys' impls where
    run: "closureLoop genImpl keys [] = Some (Inr (keys', impls))"
    and inv: "closureInv genImpl keys keys' impls"
    and closed: "set keys' \<subseteq> fst ` set impls"
    and fixp: "closureScan genImpl (sort (remdups keys'))
                 \<lparr>depsKeys = keys', genericIfaceImpls = impls, addedImpl = False\<rparr>
               = Inr \<lparr>depsKeys = keys', genericIfaceImpls = impls, addedImpl = False\<rparr>"
    by blast
  have "fst ` set impls = requiredKeys genImpl keys"
    using inv closureInv_covers[OF inv closed] by (auto simp: closureInv_def)
  moreover have "distinct (map fst impls)" using inv by (simp add: closureInv_def)
  moreover have "\<forall>(k, ifaceImpl)\<in>set impls. \<exists>required. genImpl k = Inr (ifaceImpl, required)"
    using inv unfolding closureInv_def by fast
  ultimately show ?thesis using run fixp by blast
qed

lemma readerCloser_keys:
  "requiredKeys readerCloser [''Reader''] \<subseteq> {''Reader'', ''Closer''}"
proof
  fix k assume "k \<in> requiredKeys readerCloser [''Reader'']"
  then show "k \<in> {''Reader'', ''Closer''}"
    by (induction rule: requiredKeys.induct) (auto simp: readerCloser_def split: if_splits)
qed

theorem closure_terminates_with_every_reachable_key_once_witness:
  "closureLoop readerCloser [''Reader''] []
     = Some (Inr ([''Closer'', ''Reader''],
                  [(''Reader'', ''impl Reader''), (''Closer'', ''impl Closer'')]))
   \<and> requiredKeys readerCloser [''Reader''] = {''Reader'', ''Closer''}"
proof -
  have fin: "finite (requiredKeys readerCloser [''Reader''])"
    using readerCloser_keys by (rule finite_subset) simp
  have ok: "\<forall>k\<in>requiredKeys readerCloser [''Reader''].
               \<exists>ifaceImpl required. readerCloser k = Inr (ifaceImpl, required)"
    using readerCloser_keys by (auto simp: readerCloser_def)
  have run: "closureLoop readerCloser [''Reader''] []
     = Some (Inr ([''Closer'', ''Reader''],
                  [(''Reader'', ''impl Reader''), (''Closer'', ''impl Closer'')]))"
    by (simp add: closureLoop.simps readerCloser_def)
  from closure_terminates_with_every_reachable_key_once[OF fin ok] run
  have "fst ` set [(''Reader'', ''impl Reader''), (''Closer'', ''impl Closer'')]
          = requiredKeys readerCloser [''Reader'']"
    by auto
  then show ?thesis using run by auto
qed

section \<open>Properties of the Binding Pipeline\<close>

lemma generate_cases:
  obtains (fail) cause d where "synth (deps st) r = (Inl cause, d)"
      "generate synth r st = st\<lparr>resErr := resErr st @ [diagnosticName r @ '': '' @ cause], deps := d\<rparr>"
  | (ok) b d where "synth (deps st) r = (Inr b, d)"
      "generate synth r st = st\<lparr>bindings := bindings st @ [b], deps := d\<rparr>"
  by (cases "synth (deps st) r"; cases "fst (synth (deps st) r)") (auto simp: generate_def)

lemma fold_generate:
  assumes "\<forall>d. \<forall>r\<in>set rs. (\<exists>cause d'. synth d r = (Inl cause, d')) \<longleftrightarrow> r = S"
  shows "(\<exists>causes. resErr (fold (generate synth) rs st)
                      = resErr st @ map (\<lambda>c. diagnosticName S @ '': '' @ c) causes
                  \<and> length causes = count_list rs S)
       \<and> set (bindings st) \<subseteq> set (bindings (fold (generate synth) rs st))
       \<and> (\<forall>r\<in>set rs. r \<noteq> S \<longrightarrow>
            (\<exists>d b d'. synth d r = (Inr b, d') \<and> b \<in> set (bindings (fold (generate synth) rs st))))"
  using assms
proof (induction rs arbitrary: st)
  case Nil
  then show ?case by simp
next
  case (Cons r rs)
  have rest: "\<forall>d. \<forall>r\<in>set rs. (\<exists>cause d'. synth d r = (Inl cause, d')) \<longleftrightarrow> r = S"
    using Cons.prems by simp
  have here: "\<And>d. (\<exists>cause d'. synth d r = (Inl cause, d')) \<longleftrightarrow> r = S"
    using Cons.prems by simp
  let ?st1 = "generate synth r st"
  let ?st' = "fold (generate synth) rs ?st1"
  from Cons.IH[OF rest, of ?st1] obtain causes where
    e: "resErr ?st' = resErr ?st1 @ map (\<lambda>c. diagnosticName S @ '': '' @ c) causes"
    and n: "length causes = count_list rs S"
    and sub: "set (bindings ?st1) \<subseteq> set (bindings ?st')"
    and bs: "\<forall>r\<in>set rs. r \<noteq> S \<longrightarrow> (\<exists>d b d'. synth d r = (Inr b, d') \<and> b \<in> set (bindings ?st'))"
    by auto
  show ?case
  proof (cases rule: generate_cases[of synth st r])
    case (fail cause d)
    then have rS: "r = S" using here by blast
    have "resErr ?st' = resErr st @ map (\<lambda>c. diagnosticName S @ '': '' @ c) (cause # causes)"
      using e fail(2) rS by simp
    moreover have "length (cause # causes) = count_list (r # rs) S" using n rS by simp
    moreover have "set (bindings st) \<subseteq> set (bindings ?st')" using sub fail(2) by simp
    moreover have "\<forall>q\<in>set (r # rs). q \<noteq> S \<longrightarrow>
            (\<exists>d b d'. synth d q = (Inr b, d') \<and> b \<in> set (bindings ?st'))"
      using bs rS by simp
    ultimately show ?thesis unfolding fold_simps by blast
  next
    case (ok b d)
    then have rS: "r \<noteq> S" using here[of "deps st"] by auto
    have "resErr ?st' = resErr st @ map (\<lambda>c. diagnosticName S @ '': '' @ c) causes"
      using e ok(2) by simp
    moreover have "length causes = count_list (r # rs) S" using n rS by simp
    moreover have "set (bindings st) \<subseteq> set (bindings ?st')" using sub ok(2) by auto
    moreover have "b \<in> set (bindings ?st')" using sub ok(2) by auto
    then have "\<forall>q\<in>set (r # rs). q \<noteq> S \<longrightarrow>
            (\<exists>d b d'. synth d q = (Inr b, d') \<and> b \<in> set (bindings ?st'))"
      using bs ok(1) by auto
    ultimately show ?thesis unfolding fold_simps by blast
  qed
qed


lemma generateNewStruct_cases:
  obtains (fail) cause d where "synth (deps st) r = (Inl cause, d)"
      "generateNewStruct synth r st
         = st\<lparr>resErr := resErr st @ [diagnosticName r @ '': '' @ cause], deps := d\<rparr>"
  | (dup) b d where "synth (deps st) r = (Inr b, d)"
      "\<exists>b'\<in>set (bindings st). bindUniqueName b' = bindUniqueName b"
      "generateNewStruct synth r st = st\<lparr>deps := d\<rparr>"
  | (new) b d where "synth (deps st) r = (Inr b, d)"
      "generateNewStruct synth r st = st\<lparr>bindings := bindings st @ [b], deps := d\<rparr>"
  by (cases "synth (deps st) r"; cases "fst (synth (deps st) r)";
      cases "\<exists>b'\<in>set (bindings st). bindUniqueName b' = bindUniqueName (projr (fst (synth (deps st) r)))")
     (auto simp: generateNewStruct_def)

lemma fold_generateNewStruct:
  assumes "\<forall>d. \<forall>r\<in>set rs. (\<exists>cause d'. synth d r = (Inl cause, d')) \<longleftrightarrow> r = S"
  shows "(\<exists>causes. resErr (fold (generateNewStruct synth) rs st)
                      = resErr st @ map (\<lambda>c. diagnosticName S @ '': '' @ c) causes
                  \<and> length causes = count_list rs S)
       \<and> set (bindings st) \<subseteq> set (bindings (fold (generateNewStruct synth) rs st))
       \<and> (\<forall>r\<in>set rs. r \<noteq> S \<longrightarrow>
            (\<exists>d b d'. synth d r = (Inr b, d')
               \<and> (\<exists>b'\<in>set (bindings (fold (generateNewStruct synth) rs st)).
                     bindUniqueName b' = bindUniqueName b)))"
  using assms
proof (induction rs arbitrary: st)
  case Nil
  then show ?case by simp
next
  case (Cons r rs)
  have rest: "\<forall>d. \<forall>r\<in>set rs. (\<exists>cause d'. synth d r = (Inl cause, d')) \<longleftrightarrow> r = S"
    using Cons.prems by simp
  have here: "\<And>d. (\<exists>cause d'. synth d r = (Inl cause, d')) \<longleftrightarrow> r = S"
    using Cons.prems by simp
  let ?st1 = "generateNewStruct synth r st"
  let ?st' = "fold (generateNewStruct synth) rs ?st1"
  from Cons.IH[OF rest, of ?st1] obtain causes where
    e: "resErr ?st' = resErr ?st1 @ map (\<lambda>c. diagnosticName S @ '': '' @ c) causes"
    and n: "length causes = count_list rs S"
    and sub: "set (bindings ?st1) \<subseteq> set (bindings ?st')"
    and bs: "\<forall>r\<in>set rs. r \<noteq> S \<longrightarrow> (\<exists>d b d'. synth d r = (Inr b, d')
               \<and> (\<exists>b'\<in>set (bindings ?st'). bindUniqueName b' = bindUniqueName b))"
    by auto
  show ?case
  proof (cases rule: generateNewStruct_cases[of synth st r])
    case (fail cause d)
    then have rS: "r = S" using here by blast
    have "resErr ?st' = resErr st @ map (\<lambda>c. diagnosticName S @ '': '' @ c) (cause # causes)"
      using e fail(2) rS by simp
    moreover have "length (cause # causes) = count_list (r # rs) S" using n rS by simp
    moreover have "set (bindings st) \<subseteq> set (bindings ?st')" using sub fail(2) by simp
    moreover have "\<forall>q\<in>set (r # rs). q \<noteq> S \<longrightarrow> (\<exists>d b d'. synth d q = (Inr b, d')
               \<and> (\<exists>b'\<in>set (bindings ?st'). bindUniqueName b' = bindUniqueName b))"
      using bs rS by simp
    ultimately show ?thesis unfolding fold_simps by blast
  next
    case (dup b d)
    then have rS: "r \<noteq> S" using here[of "deps st"] by auto
    have "resErr ?st' = resErr st @ map (\<lambda>c. diagnosticName S @ '': '' @ c) causes"
      using e dup(3) by simp
    moreover have "length causes = count_list (r # rs) S" using n rS by simp
    moreover have s': "set (bindings st) \<subseteq> set (bindings ?st')" using sub dup(3) by auto
    moreover have "\<exists>b'\<in>set (bindings ?st'). bindUniqueName b' = bindUniqueName b"
      using dup(2) s' by blast
    then have "\<forall>q\<in>set (r # rs). q \<noteq> S \<longrightarrow> (\<exists>d b d'. synth d q = (Inr b, d')
               \<and> (\<exists>b'\<in>set (bindings ?st'). bindUniqueName b' = bindUniqueName b))"
      using bs dup(1) by auto
    ultimately show ?thesis unfolding fold_simps by blast
  next
    case (new b d)
    then have rS: "r \<noteq> S" using here[of "deps st"] by auto
    have "resErr ?st' = resErr st @ map (\<lambda>c. diagnosticName S @ '': '' @ c) causes"
      using e new(2) by simp
    moreover have "length causes = count_list (r # rs) S" using n rS by simp
    moreover have "set (bindings st) \<subseteq> set (bindings ?st')" using sub new(2) by auto
    moreover have "b \<in> set (bindings ?st')" using sub new(2) by auto
    then have "\<forall>q\<in>set (r # rs). q \<noteq> S \<longrightarrow> (\<exists>d b d'. synth d q = (Inr b, d')
               \<and> (\<exists>b'\<in>set (bindings ?st'). bindUniqueName b' = bindUniqueName b))"
      using bs new(1) by auto
    ultimately show ?thesis unfolding fold_simps by blast
  qed
qed

lemma symbolBindings_two_phases:
  "symbolBindings synth targetPkgs ir
     = fold (generateNewStruct synth) (newStructRequests targetPkgs ir)
         (fold (generate synth) (plainRequests targetPkgs ir)
            \<lparr>bindings = [], resErr = [], deps = []\<rparr>)"
  by (simp add: symbolBindings_def plainRequests_def)

text \<open>
  C6: when, among the calls the five loops make, the synthesis of exactly one symbol \<open>S\<close>
  fails (whatever the dependencies are at that moment) and \<open>S\<close> is called once, the
  aggregated error has exactly one entry, the diagnostic that starts with the name of
  \<open>S\<close>; every other call of the first four loops has its binding in the result, and every
  other struct constructor has a binding with its unique name in the result (its own, or
  the earlier one that suppressed it). The failure is not fatal: \<open>genBindings\<close> returns
  these bindings and this error whenever the closure loop returns, and its only fatal error
  is the one of the closure loop.
\<close>

theorem one_failed_symbol_gives_one_diagnostic:
  assumes only: "\<forall>d. \<forall>r\<in>set (plainRequests targetPkgs ir @ newStructRequests targetPkgs ir).
                   (\<exists>cause d'. synth d r = (Inl cause, d')) \<longleftrightarrow> r = S"
    and once: "count_list (plainRequests targetPkgs ir @ newStructRequests targetPkgs ir) S = 1"
  shows "(\<exists>cause. resErr (symbolBindings synth targetPkgs ir) = [diagnosticName S @ '': '' @ cause])
       \<and> (\<forall>r\<in>set (plainRequests targetPkgs ir). r \<noteq> S \<longrightarrow>
            (\<exists>d b d'. synth d r = (Inr b, d')
               \<and> b \<in> set (bindings (symbolBindings synth targetPkgs ir))))
       \<and> (\<forall>r\<in>set (newStructRequests targetPkgs ir). r \<noteq> S \<longrightarrow>
            (\<exists>d b d'. synth d r = (Inr b, d')
               \<and> (\<exists>b'\<in>set (bindings (symbolBindings synth targetPkgs ir)).
                     bindUniqueName b' = bindUniqueName b)))
       \<and> (\<forall>keys impls.
             closureLoop genImpl (deps (symbolBindings synth targetPkgs ir)) []
               = Some (Inr (keys, impls)) \<longrightarrow>
             genBindings synth genImpl targetPkgs ir
               = Some (Inr (bindings (symbolBindings synth targetPkgs ir), map snd impls, keys,
                            resErr (symbolBindings synth targetPkgs ir))))
       \<and> (\<forall>e. genBindings synth genImpl targetPkgs ir = Some (Inl e) \<longrightarrow>
             closureLoop genImpl (deps (symbolBindings synth targetPkgs ir)) [] = Some (Inl e))"
proof -
  let ?plain = "plainRequests targetPkgs ir" and ?news = "newStructRequests targetPkgs ir"
  let ?st0 = "\<lparr>bindings = [], resErr = [], deps = []\<rparr>"
  let ?st4 = "fold (generate synth) ?plain ?st0"
  let ?st5 = "fold (generateNewStruct synth) ?news ?st4"
  let ?f = "\<lambda>c. diagnosticName S @ '': '' @ c"
  have st5: "symbolBindings synth targetPkgs ir = ?st5" by (rule symbolBindings_two_phases)
  have only1: "\<forall>d. \<forall>r\<in>set ?plain. (\<exists>cause d'. synth d r = (Inl cause, d')) \<longleftrightarrow> r = S"
    and only2: "\<forall>d. \<forall>r\<in>set ?news. (\<exists>cause d'. synth d r = (Inl cause, d')) \<longleftrightarrow> r = S"
    using only by simp_all
  from fold_generate[OF only1, of ?st0] obtain causes1 where
    e1: "resErr ?st4 = map ?f causes1" and n1: "length causes1 = count_list ?plain S"
    and b1: "\<forall>r\<in>set ?plain. r \<noteq> S \<longrightarrow> (\<exists>d b d'. synth d r = (Inr b, d') \<and> b \<in> set (bindings ?st4))"
    by auto
  from fold_generateNewStruct[OF only2, of ?st4] obtain causes2 where
    e2: "resErr ?st5 = resErr ?st4 @ map ?f causes2" and n2: "length causes2 = count_list ?news S"
    and sub: "set (bindings ?st4) \<subseteq> set (bindings ?st5)"
    and b2: "\<forall>r\<in>set ?news. r \<noteq> S \<longrightarrow> (\<exists>d b d'. synth d r = (Inr b, d')
               \<and> (\<exists>b'\<in>set (bindings ?st5). bindUniqueName b' = bindUniqueName b))"
    by auto
  have "length (causes1 @ causes2) = 1" using n1 n2 once by simp
  then obtain cause where c: "causes1 @ causes2 = [cause]"
    by (cases "causes1 @ causes2") auto
  have "resErr ?st5 = map ?f (causes1 @ causes2)" using e1 e2 by simp
  then have diag: "resErr ?st5 = [diagnosticName S @ '': '' @ cause]" unfolding c by simp
  have plain: "\<forall>r\<in>set ?plain. r \<noteq> S \<longrightarrow>
            (\<exists>d b d'. synth d r = (Inr b, d') \<and> b \<in> set (bindings ?st5))"
    using b1 sub by blast
  have ret: "\<forall>keys impls. closureLoop genImpl (deps ?st5) [] = Some (Inr (keys, impls)) \<longrightarrow>
             genBindings synth genImpl targetPkgs ir
               = Some (Inr (bindings ?st5, map snd impls, keys, resErr ?st5))"
    by (simp add: genBindings_def st5 Let_def)
  have fatal: "\<forall>e. genBindings synth genImpl targetPkgs ir = Some (Inl e) \<longrightarrow>
             closureLoop genImpl (deps ?st5) [] = Some (Inl e)"
    by (auto simp: genBindings_def st5 Let_def split: option.splits sum.splits)
  show ?thesis unfolding st5 using diag plain b2 ret fatal by blast
qed


lemma app_requests:
  "plainRequests [''example.com/app''] appTables @ newStructRequests [''example.com/app''] appTables
     = [GenerateBinding closeFn, GenerateBinding openFn,
        GenerateGetterOrSetter \<lparr>fieldName = ''Name''\<rparr> fileStruc False,
        GenerateGetterOrSetter \<lparr>fieldName = ''Name''\<rparr> fileStruc True,
        GenerateNewStruct fileStruc]"
  by (simp add: plainRequests_def interfaceRequests_def funcRequests_def accessorRequests_def
        valueRequests_def newStructRequests_def appTables_def inTarget_def closeFn_def openFn_def
        fileStruc_def)

theorem one_failed_symbol_gives_one_diagnostic_witness:
  "resErr (symbolBindings appSynth [''example.com/app''] appTables) = [''Close: unsupported type'']
   \<and> map bindUniqueName (bindings (symbolBindings appSynth [''example.com/app''] appTables))
       = [''Open'', ''File//Name?'', ''File//Name!'', ''File'']
   \<and> genBindings appSynth readerCloser [''example.com/app''] appTables
       = Some (Inr (bindings (symbolBindings appSynth [''example.com/app''] appTables), [], [],
                    [''Close: unsupported type'']))"
proof -
  let ?S = "GenerateBinding closeFn"
  let ?st = "symbolBindings appSynth [''example.com/app''] appTables"
  have neq: "openFn \<noteq> closeFn" by (simp add: openFn_def closeFn_def)
  have only: "\<forall>d. \<forall>r\<in>set (plainRequests [''example.com/app''] appTables
                             @ newStructRequests [''example.com/app''] appTables).
                   (\<exists>cause d'. appSynth d r = (Inl cause, d')) \<longleftrightarrow> r = ?S"
    unfolding app_requests using neq by (simp add: appSynth_def)
  have once: "count_list (plainRequests [''example.com/app''] appTables
                            @ newStructRequests [''example.com/app''] appTables) ?S = 1"
    unfolding app_requests using neq by simp
  have deps0: "deps ?st = []" by code_simp
  have names: "map bindUniqueName (bindings ?st) = [''Open'', ''File//Name?'', ''File//Name!'', ''File'']"
    by code_simp
  have errs: "resErr ?st = [''Close: unsupported type'']" by code_simp
  have closure: "closureLoop readerCloser (deps ?st) [] = Some (Inr ([], []))"
    unfolding deps0 by (simp add: closureLoop.simps)
  note T = one_failed_symbol_gives_one_diagnostic[OF only once, of readerCloser]
  note ret = T[THEN conjunct2, THEN conjunct2, THEN conjunct2, THEN conjunct1, rule_format, OF closure]
  show ?thesis using ret names errs by simp
qed

end
